theory Spec2Isabelle
  imports Complex_Main "HOL-Library.Multiset" "HOL-Library.Product_Order"
begin

section \<open>Shape points (struct Dimensions)\<close>

text \<open>
  A \<open>float\<close> of the source is modelled by a real number: the comparisons of the source
  are those of a linear order and NaN is absent. The two iterators of a point, which
  refer to elements of the children's \<open>sizes\<close> lists, are positions in these lists;
  \<open>None\<close> is the iterator that was never assigned (a point of a leaf).
\<close>

record Dimensions =
  height :: real
  width :: real
  rSelected :: "nat option"
  lSelected :: "nat option"

text \<open>\<open>operator==\<close> of Dimensions: the iterators are not compared.\<close>

definition Dimensions_eq :: "Dimensions \<Rightarrow> Dimensions \<Rightarrow> bool" where
  "Dimensions_eq lhs rhs = (height lhs = height rhs \<and> width lhs = width rhs)"

text \<open>Weak dominance of the specification: \<open>p\<close> is no larger than \<open>q\<close> on both axes.\<close>

definition dominates :: "Dimensions \<Rightarrow> Dimensions \<Rightarrow> bool" where
  "dominates p q = (width p \<le> width q \<and> height p \<le> height q)"

text \<open>
  The invariant of a curve: no element weakly dominates an element at another position
  of the list.
\<close>

fun noDomination :: "Dimensions list \<Rightarrow> bool" where
  "noDomination [] = True"
| "noDomination (x # xs) =
     ((\<forall>y \<in> set xs. \<not> dominates x y \<and> \<not> dominates y x) \<and> noDomination xs)"

text \<open>
  The invariant for a list read as a set of points, where two points are the same when
  \<open>operator==\<close> holds: a point weakly dominates no other point of the set. It follows
  from the invariant on positions, and allows the same point at two positions.
\<close>

definition dominatesOnlyEqual :: "Dimensions list \<Rightarrow> bool" where
  "dominatesOnlyEqual xs = (\<forall>x \<in> set xs. \<forall>y \<in> set xs. dominates x y \<longrightarrow> Dimensions_eq x y)"

text \<open>The (width, height) pair of a point, and a curve seen as a set of such pairs.\<close>

definition wh :: "Dimensions \<Rightarrow> real \<times> real" where
  "wh d = (width d, height d)"

section \<open>SNode::addToDimensions\<close>

text \<open>
  The \<open>while\<close> loop of addToDimensions. \<open>before\<close> holds the elements of \<open>sizes\<close> that
  the iterator has passed and kept, the third argument the elements from the iterator
  on. An element erased before an early \<open>return false\<close> stays erased.
\<close>

fun addToDimensions_loop ::
  "Dimensions \<Rightarrow> Dimensions list \<Rightarrow> Dimensions list \<Rightarrow> bool \<times> Dimensions list" where
  "addToDimensions_loop nDimension before [] = (True, before @ [nDimension])"
| "addToDimensions_loop nDimension before (item # rest) =
     (if Dimensions_eq nDimension item then (False, before @ item # rest)
      else if height item \<le> height nDimension \<and> width item \<le> width nDimension
        then (False, before @ item # rest)
      else if height item \<ge> height nDimension \<and> width item \<ge> width nDimension
        then addToDimensions_loop nDimension before rest
      else addToDimensions_loop nDimension (before @ [item]) rest)"

text \<open>The returned pair is the boolean result and the new value of \<open>sizes\<close>.\<close>

definition addToDimensions :: "Dimensions \<Rightarrow> Dimensions list \<Rightarrow> bool \<times> Dimensions list" where
  "addToDimensions nDimension sizes = addToDimensions_loop nDimension [] sizes"

section \<open>The merge loops and the best-area scan of SNode::calcMinArea\<close>

text \<open>
  The point built in the body of the loops for a vertical cut, from the element \<open>i\<close> of
  the right child's list (at position \<open>ip\<close>) and the element \<open>j\<close> of the left child's
  list (at position \<open>jp\<close>).
\<close>

definition nSizeV :: "Dimensions \<Rightarrow> nat \<Rightarrow> Dimensions \<Rightarrow> nat \<Rightarrow> Dimensions" where
  "nSizeV i ip j jp =
     \<lparr>height = (if height i \<ge> height j then height i else height j),
      width = width i + width j,
      rSelected = Some ip, lSelected = Some jp\<rparr>"

text \<open>The same for a horizontal cut.\<close>

definition nSizeH :: "Dimensions \<Rightarrow> nat \<Rightarrow> Dimensions \<Rightarrow> nat \<Rightarrow> Dimensions" where
  "nSizeH i ip j jp =
     \<lparr>height = height i + height j,
      width = (if width i \<ge> width j then width i else width j),
      rSelected = Some ip, lSelected = Some jp\<rparr>"

text \<open>
  The two nested \<open>for\<close> loops. The state is the list \<open>sizes\<close> of the node together with
  the sequence of the points passed to addToDimensions so far (a ghost variable: the
  source does not keep it). \<open>mk\<close> is the body's construction of \<open>nSize\<close>.
\<close>

fun innerLoop ::
  "(Dimensions \<Rightarrow> nat \<Rightarrow> Dimensions \<Rightarrow> nat \<Rightarrow> Dimensions) \<Rightarrow> Dimensions \<Rightarrow> nat \<Rightarrow>
   Dimensions list \<Rightarrow> nat \<Rightarrow> Dimensions list \<times> Dimensions list \<Rightarrow>
   Dimensions list \<times> Dimensions list" where
  "innerLoop mk i ip [] jp st = st"
| "innerLoop mk i ip (j # js) jp (sizes, offered) =
     innerLoop mk i ip js (Suc jp)
       (snd (addToDimensions (mk i ip j jp) sizes), offered @ [mk i ip j jp])"

fun outerLoop ::
  "(Dimensions \<Rightarrow> nat \<Rightarrow> Dimensions \<Rightarrow> nat \<Rightarrow> Dimensions) \<Rightarrow> Dimensions list \<Rightarrow> nat \<Rightarrow>
   Dimensions list \<Rightarrow> Dimensions list \<times> Dimensions list \<Rightarrow>
   Dimensions list \<times> Dimensions list" where
  "outerLoop mk [] ip lsizes st = st"
| "outerLoop mk (i # is) ip lsizes st =
     outerLoop mk is (Suc ip) lsizes (innerLoop mk i ip lsizes 0 st)"

text \<open>
  The branch on the node's name and the loops, started on the list \<open>sizes\<close> of the node
  (which calcMinArea has cleared). The result is the new list and the points offered.
\<close>

definition mergeLoops ::
  "char \<Rightarrow> Dimensions list \<Rightarrow> Dimensions list \<Rightarrow> Dimensions list \<Rightarrow>
   Dimensions list \<times> Dimensions list" where
  "mergeLoops nm rsizes lsizes sizes0 =
     (if nm = CHR ''V'' then outerLoop nSizeV rsizes 0 lsizes (sizes0, [])
      else outerLoop nSizeH rsizes 0 lsizes (sizes0, []))"

text \<open>
  The scan for the best area. \<open>best\<close> is an iterator of \<open>sizes\<close>, here the position of
  its element; \<open>k\<close> is the position of \<open>current\<close>.
\<close>

fun bestLoop :: "Dimensions list \<Rightarrow> nat \<Rightarrow> nat \<times> real \<Rightarrow> nat \<times> real" where
  "bestLoop [] k (best, bestArea) = (best, bestArea)"
| "bestLoop (current # rest) k (best, bestArea) =
     (let cArea = height current * width current
      in if cArea < bestArea then bestLoop rest (Suc k) (k, cArea)
         else bestLoop rest (Suc k) (best, bestArea))"

text \<open>
  Errors: a thrown string literal, or a read through a null pointer or through the end
  iterator of an empty list, after which the source has no defined behaviour.
\<close>

datatype error = Thrown string | UndefinedBehaviour

text \<open>
  \<open>best = sizes.begin()\<close> and the read of \<open>best->height\<close>, which is undefined when
  \<open>sizes\<close> is empty, followed by the scan.
\<close>

definition selectBest :: "Dimensions list \<Rightarrow> error + nat \<times> real" where
  "selectBest sizes =
     (case sizes of
        [] \<Rightarrow> Inl UndefinedBehaviour
      | b # _ \<Rightarrow> Inr (bestLoop sizes 0 (0, height b * width b)))"

text \<open>Offering the points of a list to addToDimensions, one after the other.\<close>

definition offerAll :: "Dimensions list \<Rightarrow> Dimensions list \<Rightarrow> Dimensions list" where
  "offerAll cs sizes = foldl (\<lambda>s c. snd (addToDimensions c s)) sizes cs"

text \<open>
  The points that one run of the inner loop builds from the element \<open>i\<close> of the right
  child's list and the whole list of the left child.
\<close>

definition row ::
  "(Dimensions \<Rightarrow> nat \<Rightarrow> Dimensions \<Rightarrow> nat \<Rightarrow> Dimensions) \<Rightarrow> Dimensions \<Rightarrow> nat \<Rightarrow>
   Dimensions list \<Rightarrow> Dimensions list" where
  "row mk i ip js = map (\<lambda>k. mk i ip (js ! k) k) [0..<length js]"

text \<open>
  The Pareto frontier of a set of (width, height) pairs, ordered componentwise: the
  pairs of the set with no other pair of the set below them.
\<close>

definition frontier :: "(real \<times> real) set \<Rightarrow> (real \<times> real) set" where
  "frontier S = {m \<in> S. \<forall>b \<in> S. b \<le> m \<longrightarrow> b = m}"

section \<open>Nodes, pointers and the two lists of nodes\<close>

text \<open>
  A pointer to a node is null or the address of an element of one of the two lists of
  the program, \<open>cells\<close> and \<open>operators\<close>; the elements of a \<open>std::list\<close> never move, so
  the address of an element is its position.
\<close>

datatype ptr = Null | Cell nat | Operator nat

text \<open>\<open>selected\<close> is \<open>None\<close> until calcMinArea assigns it (no constructor initialises it).\<close>

record SNode =
  isOperator :: bool
  fixed :: bool
  name :: char
  aspectRatio :: real
  area :: real
  sizes :: "Dimensions list"
  selected :: "Dimensions option"
  right :: ptr
  left :: ptr
  parent :: ptr

text \<open>The store: the list \<open>cells\<close> and the list \<open>operators\<close>.\<close>

type_synonym heap = "SNode list \<times> SNode list"

definition deref :: "heap \<Rightarrow> ptr \<Rightarrow> SNode option" where
  "deref h p =
     (case p of
        Null \<Rightarrow> None
      | Cell i \<Rightarrow> (if i < length (fst h) then Some (fst h ! i) else None)
      | Operator i \<Rightarrow> (if i < length (snd h) then Some (snd h ! i) else None))"

definition store :: "heap \<Rightarrow> ptr \<Rightarrow> SNode \<Rightarrow> heap" where
  "store h p n =
     (case p of
        Null \<Rightarrow> h
      | Cell i \<Rightarrow> ((fst h)[i := n], snd h)
      | Operator i \<Rightarrow> (fst h, (snd h)[i := n]))"

section \<open>Constructors and SNode::calcWandH\<close>

text \<open>
  calcWandH appends the point of the cell to \<open>sizes\<close> and, when the cell is not fixed,
  the rotated point; \<open>push_back\<close> makes no test. Square root and quotient are those of
  the real numbers: the model follows the source where the area and the aspect ratio
  are positive, and not where the source takes the root of a negative number or
  divides by zero.
\<close>

definition calcWandH :: "SNode \<Rightarrow> SNode" where
  "calcWandH this =
     (let h = sqrt (aspectRatio this * area this);
          size = \<lparr>height = h, width = area this / h, rSelected = None, lSelected = None\<rparr>;
          this1 = this\<lparr>sizes := sizes this @ [size]\<rparr>
      in if \<not> fixed this
         then this1\<lparr>sizes := sizes this1 @ [size\<lparr>height := width size, width := height size\<rparr>]\<rparr>
         else this1)"

text \<open>\<open>SNode(char name, float area, float aspectRatio, bool fixed)\<close>\<close>

definition SNode_cell_fixed :: "char \<Rightarrow> real \<Rightarrow> real \<Rightarrow> bool \<Rightarrow> SNode" where
  "SNode_cell_fixed nm ar asp fx =
     calcWandH \<lparr>isOperator = False, fixed = fx, name = nm, aspectRatio = asp, area = ar,
       sizes = [], selected = None, right = Null, left = Null, parent = Null\<rparr>"

text \<open>\<open>SNode(char name, float area, float aspectRatio)\<close>\<close>

definition SNode_cell :: "char \<Rightarrow> real \<Rightarrow> real \<Rightarrow> SNode" where
  "SNode_cell nm ar asp =
     calcWandH \<lparr>isOperator = False, fixed = False, name = nm, aspectRatio = asp, area = ar,
       sizes = [], selected = None, right = Null, left = Null, parent = Null\<rparr>"

text \<open>\<open>SNode(char name)\<close>\<close>

definition SNode_operator :: "char \<Rightarrow> SNode" where
  "SNode_operator nm =
     \<lparr>isOperator = True, fixed = True, name = nm, aspectRatio = 0, area = 0,
      sizes = [], selected = None, right = Null, left = Null, parent = Null\<rparr>"

section \<open>SNode::calcMinArea\<close>

text \<open>
  The part of calcMinArea after the recursive calls, on the node \<open>this\<close> and the lists
  \<open>sizes\<close> of its right and left children: the merge loops, the scan for the best area
  and the three assignments. The quotient of the last assignment is that of the real
  numbers; the source divides floats, also by zero.
\<close>

definition evalOperator :: "SNode \<Rightarrow> Dimensions list \<Rightarrow> Dimensions list \<Rightarrow> error + SNode" where
  "evalOperator this rsizes lsizes =
     (let merged = fst (mergeLoops (name this) rsizes lsizes (sizes this))
      in case selectBest merged of
           Inl e \<Rightarrow> Inl e
         | Inr (best, bestArea) \<Rightarrow>
             Inr (this\<lparr>sizes := merged, area := bestArea, selected := Some (merged ! best),
                    aspectRatio := height (merged ! best) / width (merged ! best)\<rparr>))"

text \<open>
  The same part on the store: the node \<open>this\<close> and its two children are read from the
  store, \<open>this\<close> is written back, and the area is returned.
\<close>

definition finishOperator :: "heap \<Rightarrow> ptr \<Rightarrow> error + heap \<times> real" where
  "finishOperator h this =
     (case deref h this of
        None \<Rightarrow> Inl UndefinedBehaviour
      | Some n \<Rightarrow>
          (case deref h (right n) of
             None \<Rightarrow> Inl UndefinedBehaviour
           | Some r \<Rightarrow>
               (case deref h (left n) of
                  None \<Rightarrow> Inl UndefinedBehaviour
                | Some l \<Rightarrow>
                    (case evalOperator n (sizes r) (sizes l) of
                       Inl e \<Rightarrow> Inl e
                     | Inr n' \<Rightarrow> Inr (store h this n', area n')))))"

text \<open>
  calcMinArea on the store. The result is \<open>None\<close> when the recursion does not end (a
  store with a cycle), an error when a null pointer is read, and otherwise the new store
  with the returned area. The children of a node are read after the calls that precede
  the read, from the store these calls have left.
\<close>

partial_function (option) calcMinArea :: "heap \<Rightarrow> ptr \<Rightarrow> (error + heap \<times> real) option" where
  "calcMinArea h this =
     (case deref h this of
        None \<Rightarrow> Some (Inl UndefinedBehaviour)
      | Some n \<Rightarrow>
          if isOperator n then
            (let h1 = store h this (n\<lparr>sizes := []\<rparr>)
             in case deref h1 (right n) of
                  None \<Rightarrow> Some (Inl UndefinedBehaviour)
                | Some r \<Rightarrow>
                    Option.bind
                      (if isOperator r then calcMinArea h1 (right n) else Some (Inr (h1, area r)))
                      (\<lambda>res1. case res1 of
                         Inl e \<Rightarrow> Some (Inl e)
                       | Inr (h2, _) \<Rightarrow>
                           (case deref h2 this of
                              None \<Rightarrow> Some (Inl UndefinedBehaviour)
                            | Some n2 \<Rightarrow>
                                (case deref h2 (left n2) of
                                   None \<Rightarrow> Some (Inl UndefinedBehaviour)
                                 | Some l \<Rightarrow>
                                     Option.bind
                                       (if isOperator l then calcMinArea h2 (left n2)
                                        else Some (Inr (h2, area l)))
                                       (\<lambda>res2. case res2 of
                                          Inl e \<Rightarrow> Some (Inl e)
                                        | Inr (h3, _) \<Rightarrow> Some (finishOperator h3 this))))))
          else Some (Inr (h, area n)))"

declare calcMinArea.simps [code]

section \<open>operator<< on a node\<close>

text \<open>
  The characters written to the stream, in order: the left subtree, the right subtree
  and the name of an operator, the name alone of an operand. \<open>None\<close> is a recursion
  that does not end.
\<close>

partial_function (option) printNode :: "heap \<Rightarrow> ptr \<Rightarrow> (error + string) option" where
  "printNode h rhs =
     (case deref h rhs of
        None \<Rightarrow> Some (Inl UndefinedBehaviour)
      | Some n \<Rightarrow>
          if isOperator n then
            Option.bind (printNode h (left n))
              (\<lambda>a. case a of
                 Inl e \<Rightarrow> Some (Inl e)
               | Inr sl \<Rightarrow>
                   Option.bind (printNode h (right n))
                     (\<lambda>b. case b of
                        Inl e \<Rightarrow> Some (Inl e)
                      | Inr sr \<Rightarrow> Some (Inr (sl @ sr @ [name n]))))
          else Some (Inr [name n]))"

declare printNode.simps [code]

section \<open>isValidNPE\<close>

text \<open>
  The loop of isValidNPE on the characters from position \<open>i\<close> on, with the two counters;
  \<open>npe[i+1]\<close> is the head of \<open>rest\<close>, and \<open>npe.find(npe[i], i+1)\<close> succeeds exactly when
  the character occurs in \<open>rest\<close>. The counters are of type \<open>int\<close> and count at most the
  characters of the string, so they do not overflow on a string of less than \<open>2^31\<close>
  characters. The last equation is the test after the loop.
\<close>

fun isValidNPE_loop :: "string \<Rightarrow> int \<Rightarrow> int \<Rightarrow> bool" where
  "isValidNPE_loop [] operands operators = (operators = operands - 1)"
| "isValidNPE_loop (c # rest) operands operators =
     (if c = CHR ''V'' \<or> c = CHR ''H'' then
        (if rest \<noteq> [] \<and> c = hd rest then False
         else if operands \<le> operators + 1 then False
         else isValidNPE_loop rest operands (operators + 1))
      else
        (if c \<in> set rest then False
         else if operands + 1 \<le> operators then False
         else isValidNPE_loop rest (operands + 1) operators))"

definition isValidNPE :: "string \<Rightarrow> bool" where
  "isValidNPE npe = isValidNPE_loop npe 0 0"

section \<open>generateTree\<close>

text \<open>
  The search of the operand in \<open>cells\<close>: the loop runs over the whole list, so the last
  cell of that name is kept. \<open>i\<close> is the position of the head of the list.
\<close>

fun findCell :: "SNode list \<Rightarrow> char \<Rightarrow> nat \<Rightarrow> ptr \<Rightarrow> ptr" where
  "findCell [] c i child = child"
| "findCell (x # xs) c i child = findCell xs c (Suc i) (if name x = c then Cell i else child)"

text \<open>
  The inner \<open>while\<close> loop that moves \<open>current\<close> up to the parent; \<open>&operators.front()\<close> is
  \<open>Operator 0\<close>. \<open>None\<close> is a loop that does not end.
\<close>

partial_function (option) walkUp :: "heap \<Rightarrow> ptr \<Rightarrow> (error + ptr) option" where
  "walkUp h current =
     (if current \<noteq> Operator 0 then
        (case deref h current of
           None \<Rightarrow> Some (Inl UndefinedBehaviour)
         | Some n \<Rightarrow>
             if left n \<noteq> Null then walkUp h (parent n) else Some (Inr current))
      else Some (Inr current))"

declare walkUp.simps [code]

text \<open>The body of the main loop for an operator character.\<close>

definition stepOperator :: "heap \<Rightarrow> ptr \<Rightarrow> char \<Rightarrow> (error + heap \<times> ptr) option" where
  "stepOperator h current c =
     (let h1 = (fst h, snd h @ [SNode_operator c]);
          back = Operator (length (snd h))
      in case deref h1 current of
           None \<Rightarrow> Some (Inl UndefinedBehaviour)
         | Some n \<Rightarrow>
             if right n \<noteq> Null then
               (let h2 = store h1 current (n\<lparr>left := back\<rparr>)
                in case deref h2 back of
                     None \<Rightarrow> Some (Inl UndefinedBehaviour)
                   | Some b \<Rightarrow> Some (Inr (store h2 back (b\<lparr>parent := current\<rparr>), back)))
             else
               (let h2 = store h1 current (n\<lparr>right := back\<rparr>)
                in case deref h2 back of
                     None \<Rightarrow> Some (Inl UndefinedBehaviour)
                   | Some b \<Rightarrow> Some (Inr (store h2 back (b\<lparr>parent := current\<rparr>), back))))"

text \<open>The body of the main loop for an operand character.\<close>

definition stepOperand :: "heap \<Rightarrow> ptr \<Rightarrow> char \<Rightarrow> (error + heap \<times> ptr) option" where
  "stepOperand h current c =
     (let child = findCell (fst h) c 0 Null
      in if child \<noteq> Null then
           (case deref h current of
              None \<Rightarrow> Some (Inl UndefinedBehaviour)
            | Some n \<Rightarrow>
                if right n \<noteq> Null then
                  (let h1 = store h current (n\<lparr>left := child\<rparr>)
                   in case walkUp h1 current of
                        None \<Rightarrow> None
                      | Some (Inl e) \<Rightarrow> Some (Inl e)
                      | Some (Inr current') \<Rightarrow> Some (Inr (h1, current')))
                else Some (Inr (store h current (n\<lparr>right := child\<rparr>), current)))
         else Some (Inl (Thrown ''Cell data not valid!'')))"

text \<open>The main loop, on the characters that the reverse iterator has not read yet.\<close>

fun generateTree_loop :: "heap \<Rightarrow> ptr \<Rightarrow> string \<Rightarrow> (error + heap \<times> ptr) option" where
  "generateTree_loop h current [] = Some (Inr (h, current))"
| "generateTree_loop h current (c # cs) =
     (case (if c = CHR ''V'' \<or> c = CHR ''H'' then stepOperator h current c
            else stepOperand h current c) of
        None \<Rightarrow> None
      | Some (Inl e) \<Rightarrow> Some (Inl e)
      | Some (Inr (h', current')) \<Rightarrow> generateTree_loop h' current' cs)"

text \<open>
  generateTree. \<open>operators\<close> is cleared first, so its value at the call is not used. The
  result is the store, whose second component is the new value of \<open>operators\<close>, and the
  returned pointer \<open>&operators.front()\<close>. The last character of the string becomes an
  operator node without a test. Reading \<open>*npe.rbegin()\<close> of an empty string is
  undefined. The message written to \<open>std::cout\<close> before the first \<open>throw\<close> is not part
  of the model.
\<close>

definition generateTree ::
  "string \<Rightarrow> SNode list \<Rightarrow> SNode list \<Rightarrow> (error + heap \<times> ptr) option" where
  "generateTree npe cells operators =
     (if \<not> isValidNPE npe then Some (Inl (Thrown ''Invalid NPE!''))
      else case rev npe of
        [] \<Rightarrow> Some (Inl UndefinedBehaviour)
      | c # cs \<Rightarrow>
          (case generateTree_loop (cells, [SNode_operator c]) (Operator 0) cs of
             None \<Rightarrow> None
           | Some (Inl e) \<Rightarrow> Some (Inl e)
           | Some (Inr (h, current)) \<Rightarrow> Some (Inr (h, Operator 0))))"

section \<open>cost\<close>

definition cost :: "string \<Rightarrow> SNode list \<Rightarrow> (error + heap \<times> real) option" where
  "cost npe cells =
     (case generateTree npe cells [] of
        None \<Rightarrow> None
      | Some (Inl e) \<Rightarrow> Some (Inl e)
      | Some (Inr (h, rootNode)) \<Rightarrow> calcMinArea h rootNode)"

section \<open>Slicing trees as values\<close>

text \<open>\<open>Node c l r\<close> is an operator \<open>c\<close> with left subtree \<open>l\<close> and right subtree \<open>r\<close>.\<close>

datatype tree = Leaf char | Node char tree tree

text \<open>The store holds the tree \<open>t\<close> at the pointer \<open>p\<close>.\<close>

fun represents :: "heap \<Rightarrow> ptr \<Rightarrow> tree \<Rightarrow> bool" where
  "represents h p (Leaf c) =
     (case deref h p of None \<Rightarrow> False | Some n \<Rightarrow> \<not> isOperator n \<and> name n = c)"
| "represents h p (Node c l r) =
     (case deref h p of
        None \<Rightarrow> False
      | Some n \<Rightarrow> isOperator n \<and> name n = c \<and>
          represents h (left n) l \<and> represents h (right n) r)"

text \<open>The postfix string of a tree: left subtree, right subtree, operator.\<close>

fun postfix :: "tree \<Rightarrow> string" where
  "postfix (Leaf c) = [c]"
| "postfix (Node c l r) = postfix l @ postfix r @ [c]"

text \<open>
  The stack-based construction in the words of the specification (section 4.4): at an
  operator the most recently pushed node becomes the left child and the one pushed
  before it the right child.
\<close>

fun spec_build_loop :: "string \<Rightarrow> tree list \<Rightarrow> tree list option" where
  "spec_build_loop [] stack = Some stack"
| "spec_build_loop (c # cs) stack =
     (if c = CHR ''V'' \<or> c = CHR ''H'' then
        (case stack of
           recent # before # rest \<Rightarrow> spec_build_loop cs (Node c recent before # rest)
         | _ \<Rightarrow> None)
      else spec_build_loop cs (Leaf c # stack))"

definition spec_build :: "string \<Rightarrow> tree option" where
  "spec_build npe = (case spec_build_loop npe [] of Some [t] \<Rightarrow> Some t | _ \<Rightarrow> None)"

text \<open>
  The usual reading of a postfix string: at an operator the most recently pushed node
  becomes the right child and the one pushed before it the left child.
\<close>

fun postfix_build_loop :: "string \<Rightarrow> tree list \<Rightarrow> tree list option" where
  "postfix_build_loop [] stack = Some stack"
| "postfix_build_loop (c # cs) stack =
     (if c = CHR ''V'' \<or> c = CHR ''H'' then
        (case stack of
           recent # before # rest \<Rightarrow> postfix_build_loop cs (Node c before recent # rest)
         | _ \<Rightarrow> None)
      else postfix_build_loop cs (Leaf c # stack))"

definition postfix_build :: "string \<Rightarrow> tree option" where
  "postfix_build npe = (case postfix_build_loop npe [] of Some [t] \<Rightarrow> Some t | _ \<Rightarrow> None)"

section \<open>Counting operators and operands\<close>

text \<open>The characters that isValidNPE and generateTree take for operators.\<close>

definition isOperatorChar :: "char \<Rightarrow> bool" where
  "isOperatorChar c = (c = CHR ''V'' \<or> c = CHR ''H'')"

definition nOperators :: "string \<Rightarrow> nat" where
  "nOperators s = length (filter isOperatorChar s)"

definition nOperands :: "string \<Rightarrow> nat" where
  "nOperands s = length (filter (\<lambda>c. \<not> isOperatorChar c) s)"

text \<open>The product that the scan of calcMinArea compares.\<close>

definition areaOf :: "Dimensions \<Rightarrow> real" where
  "areaOf d = height d * width d"

section \<open>An example store\<close>

text \<open>
  The second scenario of the specification: the cell A with the curve \<open>{(2,2)}\<close>, the
  cell B with the two orientations of a 1 by 4 rectangle, and a vertical cut whose
  left child is A and whose right child is B.
\<close>

definition exampleA :: SNode where
  "exampleA =
     \<lparr>isOperator = False, fixed = True, name = CHR ''A'', aspectRatio = 1, area = 4,
      sizes = [\<lparr>height = 2, width = 2, rSelected = None, lSelected = None\<rparr>],
      selected = None, right = Null, left = Null, parent = Null\<rparr>"

definition exampleB :: SNode where
  "exampleB =
     \<lparr>isOperator = False, fixed = False, name = CHR ''B'', aspectRatio = 4, area = 4,
      sizes = [\<lparr>height = 4, width = 1, rSelected = None, lSelected = None\<rparr>,
               \<lparr>height = 1, width = 4, rSelected = None, lSelected = None\<rparr>],
      selected = None, right = Null, left = Null, parent = Null\<rparr>"

definition exampleV :: SNode where
  "exampleV =
     \<lparr>isOperator = True, fixed = True, name = CHR ''V'', aspectRatio = 0, area = 0,
      sizes = [], selected = None, right = Cell 1, left = Cell 0, parent = Null\<rparr>"

definition exampleHeap :: heap where
  "exampleHeap = ([exampleA, exampleB], [exampleV])"

section \<open>The layout of a tree in the list of operators\<close>

text \<open>The number of operator nodes of a tree.\<close>

fun nops :: "tree \<Rightarrow> nat" where
  "nops (Leaf c) = 0"
| "nops (Node c l r) = Suc (nops r + nops l)"

text \<open>Operators carry an operator character and leaves another character.\<close>

fun shaped :: "tree \<Rightarrow> bool" where
  "shaped (Leaf c) = (\<not> isOperatorChar c)"
| "shaped (Node c l r) = (isOperatorChar c \<and> shaped l \<and> shaped r)"

text \<open>The search in \<open>cells\<close> succeeds for every leaf.\<close>

fun found :: "SNode list \<Rightarrow> tree \<Rightarrow> bool" where
  "found cells (Leaf c) = (findCell cells c 0 Null \<noteq> Null)"
| "found cells (Node c l r) = (found cells l \<and> found cells r)"

text \<open>
  generateTree creates the operator nodes of a tree in the order operator, right
  subtree, left subtree. \<open>rootPtr cells t lo\<close> is the pointer to the root of \<open>t\<close> when its
  first operator node is stored at position \<open>lo\<close>, and \<open>nodesOf cells t lo par\<close> are its
  operator nodes in the order of their positions, where \<open>par\<close> is the parent of the root.
\<close>

fun rootPtr :: "SNode list \<Rightarrow> tree \<Rightarrow> nat \<Rightarrow> ptr" where
  "rootPtr cells (Leaf c) lo = findCell cells c 0 Null"
| "rootPtr cells (Node c l r) lo = Operator lo"

fun nodesOf :: "SNode list \<Rightarrow> tree \<Rightarrow> nat \<Rightarrow> ptr \<Rightarrow> SNode list" where
  "nodesOf cells (Leaf c) lo par = []"
| "nodesOf cells (Node c l r) lo par =
     (SNode_operator c)\<lparr>right := rootPtr cells r (Suc lo),
        left := rootPtr cells l (Suc lo + nops r), parent := par\<rparr> #
     nodesOf cells r (Suc lo) (Operator lo) @ nodesOf cells l (Suc lo + nops r) (Operator lo)"

text \<open>The list of operators after a tree has become the right or the left child of node \<open>k\<close>.\<close>

definition fillRight :: "SNode list \<Rightarrow> SNode list \<Rightarrow> nat \<Rightarrow> tree \<Rightarrow> SNode list" where
  "fillRight cells ops k t =
     ops[k := (ops ! k)\<lparr>right := rootPtr cells t (length ops)\<rparr>] @
     nodesOf cells t (length ops) (Operator k)"

definition fillLeft :: "SNode list \<Rightarrow> SNode list \<Rightarrow> nat \<Rightarrow> tree \<Rightarrow> SNode list" where
  "fillLeft cells ops k t =
     ops[k := (ops ! k)\<lparr>left := rootPtr cells t (length ops)\<rparr>] @
     nodesOf cells t (length ops) (Operator k)"

text \<open>The main loop continued after the inner loop walkUp.\<close>

definition resume :: "heap \<Rightarrow> (error + ptr) option \<Rightarrow> string \<Rightarrow> (error + heap \<times> ptr) option" where
  "resume h w rest =
     (case w of
        None \<Rightarrow> None
      | Some (Inl e) \<Rightarrow> Some (Inl e)
      | Some (Inr current) \<Rightarrow> generateTree_loop h current rest)"

text \<open>The nodes \<open>ns\<close> are stored in \<open>ops\<close> from position \<open>lo\<close> on.\<close>

fun embeds :: "SNode list \<Rightarrow> nat \<Rightarrow> SNode list \<Rightarrow> bool" where
  "embeds ops lo [] = True"
| "embeds ops lo (n # ns) = (lo < length ops \<and> ops ! lo = n \<and> embeds ops (Suc lo) ns)"

text \<open>Three cells, and the store that generateTree builds from them for the string 12V.\<close>

definition cells123 :: "SNode list" where
  "cells123 = [SNode_cell CHR ''1'' 4 1, SNode_cell CHR ''2'' 4 4, SNode_cell CHR ''3'' 9 1]"

definition heap12V :: heap where
  "heap12V =
     (cells123,
      [\<lparr>isOperator = True, fixed = True, name = CHR ''V'', aspectRatio = 0, area = 0,
        sizes = [], selected = None, right = Cell 1, left = Cell 0, parent = Null\<rparr>])"

section \<open>Evaluated trees\<close>

text \<open>
  The pointers of the operator nodes of a tree are in the list of operators as
  generateTree leaves them: the tree \<open>t\<close> has its first operator node at position \<open>lo\<close>.
\<close>

fun laidOut :: "SNode list \<Rightarrow> SNode list \<Rightarrow> tree \<Rightarrow> nat \<Rightarrow> bool" where
  "laidOut cells ops (Leaf c) lo = True"
| "laidOut cells ops (Node c l r) lo =
     (lo < length ops \<and> isOperator (ops ! lo) \<and>
      right (ops ! lo) = rootPtr cells r (Suc lo) \<and>
      left (ops ! lo) = rootPtr cells l (Suc lo + nops r) \<and>
      laidOut cells ops r (Suc lo) \<and> laidOut cells ops l (Suc lo + nops r))"

text \<open>Two lists of operators with the same nodes up to the fields that calcMinArea assigns.\<close>

definition sameShape :: "SNode list \<Rightarrow> SNode list \<Rightarrow> bool" where
  "sameShape ops ops' =
     (length ops' = length ops \<and>
      (\<forall>i < length ops. isOperator (ops' ! i) = isOperator (ops ! i) \<and>
         name (ops' ! i) = name (ops ! i) \<and>
         right (ops' ! i) = right (ops ! i) \<and> left (ops' ! i) = left (ops ! i)))"

text \<open>
  The result of the scan for the best area at a node: \<open>selected\<close> is the point at
  position \<open>k\<close> of the list of the node, no point of the list has a smaller product of
  height and width, every point before position \<open>k\<close> has a greater one, \<open>area\<close> is that
  product, and \<open>aspectRatio\<close> is the quotient of the height and the width of the
  selected point (where the width is not zero).
\<close>

definition selectsFirstMin :: "SNode \<Rightarrow> nat \<Rightarrow> bool" where
  "selectsFirstMin n k =
     (k < length (sizes n) \<and> selected n = Some (sizes n ! k) \<and>
      (\<forall>j < length (sizes n). areaOf (sizes n ! k) \<le> areaOf (sizes n ! j)) \<and>
      (\<forall>j < k. areaOf (sizes n ! k) < areaOf (sizes n ! j)) \<and>
      area n = areaOf (sizes n ! k) \<and>
      (width (sizes n ! k) \<noteq> 0 \<longrightarrow>
         aspectRatio n = height (sizes n ! k) / width (sizes n ! k)))"

text \<open>
  What calcMinArea has established at an operator node: the list of the node is without
  domination, and the scan has selected its first point of least area.
\<close>

definition evaluated :: "SNode \<Rightarrow> bool" where
  "evaluated n = (noDomination (sizes n) \<and> (\<exists>k. selectsFirstMin n k))"

section \<open>Properties of addToDimensions\<close>

lemma noDomination_append:
  "noDomination (xs @ ys) =
     (noDomination xs \<and> noDomination ys \<and>
      (\<forall>x \<in> set xs. \<forall>y \<in> set ys. \<not> dominates x y \<and> \<not> dominates y x))"
  by (induction xs) auto

lemma noDomination_filter: "noDomination xs \<Longrightarrow> noDomination (filter P xs)"
  by (induction xs) auto

lemma noDomination_nth:
  "noDomination xs =
     (\<forall>i < length xs. \<forall>j < length xs. i \<noteq> j \<longrightarrow> \<not> dominates (xs ! i) (xs ! j))"
proof (induction xs)
  case Nil
  show ?case by simp
next
  case (Cons x xs)
  show ?case (is "?L = ?R")
  proof
    assume l: ?L
    show ?R
    proof (intro allI impI)
      fix i j
      assume "i < length (x # xs)" "j < length (x # xs)" "i \<noteq> j"
      with l Cons show "\<not> dominates ((x # xs) ! i) ((x # xs) ! j)"
        by (cases i; cases j) auto
    qed
  next
    assume r: ?R
    have "\<not> dominates x y \<and> \<not> dominates y x" if "y \<in> set xs" for y
    proof -
      from that obtain k where k: "k < length xs" "xs ! k = y"
        by (auto simp: in_set_conv_nth)
      from r [rule_format, of 0 "Suc k"] r [rule_format, of "Suc k" 0] k
      show ?thesis by simp
    qed
    moreover have "noDomination xs"
      unfolding Cons
    proof (intro allI impI)
      fix i j
      assume "i < length xs" "j < length xs" "i \<noteq> j"
      with r [rule_format, of "Suc i" "Suc j"] show "\<not> dominates (xs ! i) (xs ! j)"
        by simp
    qed
    ultimately show ?L by simp
  qed
qed

lemma dominates_trans: "dominates a b \<Longrightarrow> dominates b c \<Longrightarrow> dominates a c"
  by (auto simp: dominates_def)

lemma Dimensions_eq_dominates: "Dimensions_eq a b \<Longrightarrow> dominates b a"
  by (simp add: Dimensions_eq_def dominates_def)

lemma loop_accept:
  "\<forall>x \<in> set rest. \<not> dominates x n \<Longrightarrow>
   addToDimensions_loop n before rest =
     (True, before @ filter (\<lambda>x. \<not> dominates n x) rest @ [n])"
proof (induction rest arbitrary: before)
  case Nil
  show ?case by simp
next
  case (Cons item rest)
  from Cons.prems have a: "\<not> dominates item n" and r: "\<forall>x \<in> set rest. \<not> dominates x n"
    by simp_all
  from a have ne: "\<not> Dimensions_eq n item"
    using Dimensions_eq_dominates by blast
  from a have nd: "\<not> (height item \<le> height n \<and> width item \<le> width n)"
    by (auto simp: dominates_def)
  show ?case
  proof (cases "dominates n item")
    case True
    then have "height item \<ge> height n \<and> width item \<ge> width n"
      by (auto simp: dominates_def)
    with ne nd True Cons.IH [OF r, of before] show ?thesis by simp
  next
    case False
    then have "\<not> (height item \<ge> height n \<and> width item \<ge> width n)"
      by (auto simp: dominates_def)
    with ne nd False Cons.IH [OF r, of "before @ [item]"] show ?thesis by auto
  qed
qed

lemma noDomination_dominatesOnlyEqual: "noDomination xs \<Longrightarrow> dominatesOnlyEqual xs"
  by (induction xs) (auto simp: dominatesOnlyEqual_def Dimensions_eq_def)

lemma dominatesOnlyEqual_Cons: "dominatesOnlyEqual (x # xs) \<Longrightarrow> dominatesOnlyEqual xs"
  by (simp add: dominatesOnlyEqual_def)

lemma loop_reject:
  "dominatesOnlyEqual rest \<Longrightarrow> \<exists>x \<in> set rest. dominates x n \<Longrightarrow>
   addToDimensions_loop n before rest = (False, before @ rest)"
proof (induction rest arbitrary: before)
  case Nil
  then show ?case by simp
next
  case (Cons item rest)
  show ?case
  proof (cases "Dimensions_eq n item \<or> (height item \<le> height n \<and> width item \<le> width n)")
    case True
    then show ?thesis by auto
  next
    case False
    then have ni: "\<not> dominates item n" by (auto simp: dominates_def)
    with Cons.prems(2) obtain x where x: "x \<in> set rest" "dominates x n" by auto
    have "\<not> dominates n item"
    proof
      assume "dominates n item"
      with x(2) have "dominates x item" by (rule dominates_trans)
      with Cons.prems(1) x(1) have "Dimensions_eq x item"
        by (simp add: dominatesOnlyEqual_def)
      with x(2) have "dominates item n"
        by (simp add: Dimensions_eq_def dominates_def)
      with ni show False ..
    qed
    then have k: "\<not> (height item \<ge> height n \<and> width item \<ge> width n)"
      by (auto simp: dominates_def)
    from Cons.prems(1) have "dominatesOnlyEqual rest" by (rule dominatesOnlyEqual_Cons)
    from Cons.IH [OF this, of "before @ [item]"] x
    have "addToDimensions_loop n (before @ [item]) rest = (False, (before @ [item]) @ rest)"
      by blast
    with False k show ?thesis by auto
  qed
qed

lemma loop_nonempty: "snd (addToDimensions_loop n before rest) \<noteq> []"
  by (induction rest arbitrary: before) auto

lemma addToDimensions_cases:
  assumes "dominatesOnlyEqual szs"
  shows "addToDimensions n szs =
           (if \<exists>x \<in> set szs. dominates x n then (False, szs)
            else (True, filter (\<lambda>x. \<not> dominates n x) szs @ [n]))"
proof (cases "\<exists>x \<in> set szs. dominates x n")
  case True
  from loop_reject [OF assms True, of "[]"] True show ?thesis
    by (simp add: addToDimensions_def)
next
  case False
  then have "\<forall>x \<in> set szs. \<not> dominates x n" by blast
  from loop_accept [OF this, of "[]"] False show ?thesis
    by (simp add: addToDimensions_def)
qed

lemma addToDimensions_dominatesOnlyEqual:
  assumes "dominatesOnlyEqual szs"
  shows "dominatesOnlyEqual (snd (addToDimensions n szs))"
proof (cases "\<exists>x \<in> set szs. dominates x n")
  case True
  with assms show ?thesis by (simp add: addToDimensions_cases)
next
  case False
  have "dominatesOnlyEqual (filter (\<lambda>x. \<not> dominates n x) szs @ [n])"
    using False assms by (auto simp: dominatesOnlyEqual_def Dimensions_eq_def)
  with False assms show ?thesis by (simp add: addToDimensions_cases)
qed

lemma addToDimensions_noDomination:
  assumes "noDomination szs"
  shows "noDomination (snd (addToDimensions n szs))"
proof (cases "\<exists>x \<in> set szs. dominates x n")
  case True
  with assms show ?thesis
    by (simp add: addToDimensions_cases noDomination_dominatesOnlyEqual)
next
  case False
  have "noDomination (filter (\<lambda>x. \<not> dominates n x) szs @ [n])"
    using False noDomination_filter [OF assms, of "\<lambda>x. \<not> dominates n x"]
    by (auto simp: noDomination_append)
  with False assms show ?thesis
    by (simp add: addToDimensions_cases noDomination_dominatesOnlyEqual)
qed

text \<open>
  Claim C1. On a curve in which a point weakly dominates no other point, addToDimensions
  returns false and leaves the curve as it is when an existing point equals the
  candidate or weakly dominates it; otherwise it removes exactly the points that the
  candidate weakly dominates, appends the candidate and returns true. In both cases the
  new curve has the invariant again. This holds for the invariant on the set of points
  (the hypothesis) and for the invariant on the positions of the list, which excludes
  equal points at two positions as well.
\<close>

theorem addToDimensions_insert:
  assumes "dominatesOnlyEqual szs"
  shows "addToDimensions n szs =
           (if \<exists>x \<in> set szs. Dimensions_eq x n \<or> dominates x n
            then (False, szs)
            else (True, filter (\<lambda>x. \<not> dominates n x) szs @ [n]))
         \<and> dominatesOnlyEqual (snd (addToDimensions n szs))
         \<and> (noDomination szs \<longrightarrow> noDomination (snd (addToDimensions n szs)))"
proof -
  have "Dimensions_eq x n \<or> dominates x n \<longleftrightarrow> dominates x n" for x
    by (auto simp: Dimensions_eq_def dominates_def)
  then have "(\<exists>x \<in> set szs. Dimensions_eq x n \<or> dominates x n) = (\<exists>x \<in> set szs. dominates x n)"
    by simp
  then show ?thesis
    using addToDimensions_cases [OF assms, of n] addToDimensions_dominatesOnlyEqual [OF assms, of n]
      addToDimensions_noDomination [of szs n]
    by simp
qed

theorem addToDimensions_insert_witness:
  "noDomination
     [\<lparr>height = 5, width = 1, rSelected = None, lSelected = None\<rparr>,
      \<lparr>height = 4, width = 4, rSelected = None, lSelected = None\<rparr>,
      \<lparr>height = 1, width = 5, rSelected = None, lSelected = None\<rparr>] \<and>
   addToDimensions \<lparr>height = 3, width = 3, rSelected = None, lSelected = None\<rparr>
     [\<lparr>height = 5, width = 1, rSelected = None, lSelected = None\<rparr>,
      \<lparr>height = 4, width = 4, rSelected = None, lSelected = None\<rparr>,
      \<lparr>height = 1, width = 5, rSelected = None, lSelected = None\<rparr>] =
     (True,
      [\<lparr>height = 5, width = 1, rSelected = None, lSelected = None\<rparr>,
       \<lparr>height = 1, width = 5, rSelected = None, lSelected = None\<rparr>,
       \<lparr>height = 3, width = 3, rSelected = None, lSelected = None\<rparr>]) \<and>
   noDomination
     (snd (addToDimensions \<lparr>height = 3, width = 3, rSelected = None, lSelected = None\<rparr>
       [\<lparr>height = 5, width = 1, rSelected = None, lSelected = None\<rparr>,
        \<lparr>height = 4, width = 4, rSelected = None, lSelected = None\<rparr>,
        \<lparr>height = 1, width = 5, rSelected = None, lSelected = None\<rparr>]))"
proof -
  let ?szs = "[\<lparr>height = 5, width = 1, rSelected = None, lSelected = None\<rparr>,
      \<lparr>height = 4, width = 4, rSelected = None, lSelected = None\<rparr>,
      \<lparr>height = 1, width = 5, rSelected = None, lSelected = None\<rparr>]"
  let ?n = "\<lparr>height = 3, width = 3, rSelected = None, lSelected = None\<rparr>"
  have h: "noDomination ?szs" by (simp add: dominates_def)
  have w: "dominatesOnlyEqual ?szs"
    by (simp add: dominatesOnlyEqual_def dominates_def Dimensions_eq_def)
  have c: "\<not> (\<exists>x \<in> set ?szs. Dimensions_eq x ?n \<or> dominates x ?n)"
    by (simp add: dominates_def Dimensions_eq_def)
  from addToDimensions_insert [OF w, of ?n] c h
  have "addToDimensions ?n ?szs = (True, filter (\<lambda>x. \<not> dominates ?n x) ?szs @ [?n])"
    and "noDomination (snd (addToDimensions ?n ?szs))"
    by simp_all
  with h show ?thesis by (simp add: dominates_def)
qed

section \<open>Properties of the merge loops\<close>

lemma innerLoop_offered:
  "snd (innerLoop mk i ip js jp (s, tr)) =
     tr @ map (\<lambda>k. mk i ip (js ! k) (jp + k)) [0..<length js]"
proof (induction js arbitrary: jp s tr)
  case Nil
  show ?case by simp
next
  case (Cons j js)
  have "map (\<lambda>k. mk i ip ((j # js) ! k) (jp + k)) [0..<length (j # js)] =
        mk i ip j jp # map (\<lambda>k. mk i ip (js ! k) (Suc jp + k)) [0..<length js]"
    by (simp add: map_upt_Suc del: upt_Suc)
  with Cons.IH show ?case by simp
qed

lemma innerLoop_sizes:
  "fst (innerLoop mk i ip js jp (s, tr)) =
     foldl (\<lambda>s c. snd (addToDimensions c s)) s
       (map (\<lambda>k. mk i ip (js ! k) (jp + k)) [0..<length js])"
proof (induction js arbitrary: jp s tr)
  case Nil
  show ?case by simp
next
  case (Cons j js)
  have "map (\<lambda>k. mk i ip ((j # js) ! k) (jp + k)) [0..<length (j # js)] =
        mk i ip j jp # map (\<lambda>k. mk i ip (js ! k) (Suc jp + k)) [0..<length js]"
    by (simp add: map_upt_Suc del: upt_Suc)
  with Cons.IH show ?case by simp
qed

lemma innerLoop_eq:
  "innerLoop mk i ip js 0 (s, tr) =
     (foldl (\<lambda>s c. snd (addToDimensions c s)) s (row mk i ip js), tr @ row mk i ip js)"
  using innerLoop_offered [of mk i ip js 0 s tr] innerLoop_sizes [of mk i ip js 0 s tr]
  by (simp add: row_def prod_eq_iff)

lemma outerLoop_eq:
  "outerLoop mk is ip js (s, tr) =
     (foldl (\<lambda>s c. snd (addToDimensions c s)) s
        (concat (map (\<lambda>k. row mk (is ! k) (ip + k) js) [0..<length is])),
      tr @ concat (map (\<lambda>k. row mk (is ! k) (ip + k) js) [0..<length is]))"
proof (induction "is" arbitrary: ip s tr)
  case Nil
  show ?case by simp
next
  case (Cons i "is")
  have "map (\<lambda>k. row mk ((i # is) ! k) (ip + k) js) [0..<length (i # is)] =
        row mk i ip js # map (\<lambda>k. row mk (is ! k) (Suc ip + k) js) [0..<length is]"
    by (simp add: map_upt_Suc del: upt_Suc)
  with Cons.IH show ?case by (simp add: innerLoop_eq)
qed

lemma concat_rows_length:
  "(\<And>k. k < m \<Longrightarrow> length (f k) = n) \<Longrightarrow> length (concat (map f [0..<m])) = m * n"
  by (induction m) auto

lemma concat_rows_nth:
  "(\<And>k. k < m \<Longrightarrow> length (f k) = n) \<Longrightarrow> i < m \<Longrightarrow> j < n \<Longrightarrow>
   concat (map f [0..<m]) ! (i * n + j) = f i ! j"
proof (induction m)
  case 0
  then show ?case by simp
next
  case (Suc m)
  have len: "length (concat (map f [0..<m])) = m * n"
    using Suc.prems(1) by (intro concat_rows_length) simp
  show ?case
  proof (cases "i < m")
    case True
    then have "Suc i \<le> m" by simp
    then have "Suc i * n \<le> m * n" by (rule mult_le_mono1)
    with Suc.prems(3) have "i * n + j < m * n" by simp
    with Suc.IH [OF _ True Suc.prems(3)] Suc.prems(1) len show ?thesis
      by (simp add: nth_append)
  next
    case False
    with Suc.prems(2) have "i = m" by simp
    with len show ?thesis by (simp add: nth_append)
  qed
qed


lemma mergeLoops_eq:
  "mergeLoops nm rs ls s0 =
     (offerAll (snd (mergeLoops nm rs ls s0)) s0,
      concat (map (\<lambda>k. row (if nm = CHR ''V'' then nSizeV else nSizeH) (rs ! k) k ls)
        [0..<length rs]))"
  by (simp add: mergeLoops_def outerLoop_eq offerAll_def)

lemma row_length: "length (row mk i ip js) = length js"
  by (simp add: row_def)

lemma row_nth: "j < length js \<Longrightarrow> row mk i ip js ! j = mk i ip (js ! j) j"
  by (simp add: row_def)

lemma offered_length:
  "length (snd (mergeLoops nm rs ls s0)) = length rs * length ls"
  by (subst mergeLoops_eq) (simp add: concat_rows_length row_length)

lemma offered_nth:
  assumes "i < length rs" "j < length ls"
  shows "snd (mergeLoops nm rs ls s0) ! (i * length ls + j) =
           (if nm = CHR ''V'' then nSizeV else nSizeH) (rs ! i) i (ls ! j) j"
proof -
  let ?f = "\<lambda>k. row (if nm = CHR ''V'' then nSizeV else nSizeH) (rs ! k) k ls"
  have "concat (map ?f [0..<length rs]) ! (i * length ls + j) = ?f i ! j"
    using assms by (intro concat_rows_nth) (simp_all add: row_length)
  with assms(2) show ?thesis
    by (subst mergeLoops_eq) (simp add: row_nth)
qed

text \<open>
  Claim C2. The points passed to addToDimensions by the loops of calcMinArea are, in
  order, one for each pair of an element \<open>r\<close> of the right child's list and an element
  \<open>l\<close> of the left child's list, each pair once: the list of the offered points has
  length \<open>length rsizes * length lsizes\<close> and holds the point of the pair at positions
  \<open>(i, j)\<close> at position \<open>i * length lsizes + j\<close>. For the name V that point has the width
  \<open>width r + width l\<close> and the height \<open>max (height r) (height l)\<close>, for the name H the
  width \<open>max (width r) (width l)\<close> and the height \<open>height r + height l\<close>; its iterators
  refer to \<open>r\<close> and \<open>l\<close>. The list of the node results from offering these points in
  this order.
\<close>

theorem mergeLoops_offers_every_pair_once:
  "fst (mergeLoops nm rsizes lsizes s0) = offerAll (snd (mergeLoops nm rsizes lsizes s0)) s0 \<and>
   length (snd (mergeLoops nm rsizes lsizes s0)) = length rsizes * length lsizes \<and>
   (\<forall>i < length rsizes. \<forall>j < length lsizes.
      let c = snd (mergeLoops nm rsizes lsizes s0) ! (i * length lsizes + j);
          r = rsizes ! i; l = lsizes ! j
      in rSelected c = Some i \<and> lSelected c = Some j \<and>
         (nm = CHR ''V'' \<longrightarrow>
            width c = width r + width l \<and> height c = max (height r) (height l)) \<and>
         (nm = CHR ''H'' \<longrightarrow>
            width c = max (width r) (width l) \<and> height c = height r + height l))"
proof (intro conjI allI impI)
  show "fst (mergeLoops nm rsizes lsizes s0) = offerAll (snd (mergeLoops nm rsizes lsizes s0)) s0"
    by (subst mergeLoops_eq) simp
  show "length (snd (mergeLoops nm rsizes lsizes s0)) = length rsizes * length lsizes"
    by (rule offered_length)
next
  fix i j
  assume "i < length rsizes" "j < length lsizes"
  then show "let c = snd (mergeLoops nm rsizes lsizes s0) ! (i * length lsizes + j);
          r = rsizes ! i; l = lsizes ! j
      in rSelected c = Some i \<and> lSelected c = Some j \<and>
         (nm = CHR ''V'' \<longrightarrow>
            width c = width r + width l \<and> height c = max (height r) (height l)) \<and>
         (nm = CHR ''H'' \<longrightarrow>
            width c = max (width r) (width l) \<and> height c = height r + height l)"
    by (simp add: offered_nth nSizeV_def nSizeH_def max_def)
qed

theorem mergeLoops_offers_every_pair_once_witness:
  "(0::nat) < length [\<lparr>height = 2, width = 1, rSelected = None, lSelected = None\<rparr>] \<and>
   (1::nat) < length [\<lparr>height = 1, width = 3, rSelected = None, lSelected = None\<rparr>,
                      \<lparr>height = 4, width = 1, rSelected = None, lSelected = None\<rparr>] \<and>
   snd (mergeLoops CHR ''V''
         [\<lparr>height = 2, width = 1, rSelected = None, lSelected = None\<rparr>]
         [\<lparr>height = 1, width = 3, rSelected = None, lSelected = None\<rparr>,
          \<lparr>height = 4, width = 1, rSelected = None, lSelected = None\<rparr>] []) ! 1 =
     \<lparr>height = 4, width = 2, rSelected = Some 0, lSelected = Some 1\<rparr>"
proof -
  let ?rs = "[\<lparr>height = 2, width = 1, rSelected = None, lSelected = None\<rparr>]"
  let ?ls = "[\<lparr>height = 1, width = 3, rSelected = None, lSelected = None\<rparr>,
              \<lparr>height = 4, width = 1, rSelected = None, lSelected = None\<rparr>]"
  from mergeLoops_offers_every_pair_once [of "CHR ''V''" ?rs ?ls "[]"]
  have "\<forall>i < length ?rs. \<forall>j < length ?ls.
      let c = snd (mergeLoops CHR ''V'' ?rs ?ls []) ! (i * length ?ls + j);
          r = ?rs ! i; l = ?ls ! j
      in rSelected c = Some i \<and> lSelected c = Some j \<and>
         (CHR ''V'' = CHR ''V'' \<longrightarrow>
            width c = width r + width l \<and> height c = max (height r) (height l)) \<and>
         (CHR ''V'' = CHR ''H'' \<longrightarrow>
            width c = max (width r) (width l) \<and> height c = height r + height l)"
    by blast
  from this [rule_format, of 0 1] show ?thesis
    by (simp add: Let_def)
qed

lemma addToDimensions_nonempty: "snd (addToDimensions n szs) \<noteq> []"
  by (simp add: addToDimensions_def loop_nonempty)

lemma offerAll_nonempty: "cs \<noteq> [] \<or> szs \<noteq> [] \<Longrightarrow> offerAll cs szs \<noteq> []"
proof (induction cs arbitrary: szs)
  case Nil
  then show ?case by (simp add: offerAll_def)
next
  case (Cons c cs)
  have "offerAll (c # cs) szs = offerAll cs (snd (addToDimensions c szs))"
    by (simp add: offerAll_def)
  with Cons.IH [of "snd (addToDimensions c szs)"] addToDimensions_nonempty [of c szs]
  show ?case by simp
qed

text \<open>
  Claim C10. When the lists of both children are non-empty, the list that the loops of
  calcMinArea build from the cleared list of the node is non-empty, so the read through
  \<open>sizes.begin()\<close> in the scan for the best area is defined. addToDimensions on the empty
  list appends the point and returns true, and it returns false on a non-empty list only.
\<close>

theorem merged_sizes_nonempty:
  assumes "rsizes \<noteq> []" "lsizes \<noteq> []"
  shows "fst (mergeLoops nm rsizes lsizes []) \<noteq> [] \<and>
         (\<exists>r. selectBest (fst (mergeLoops nm rsizes lsizes [])) = Inr r) \<and>
         addToDimensions n [] = (True, [n]) \<and>
         (\<forall>s. \<not> fst (addToDimensions n s) \<longrightarrow> s \<noteq> [])"
proof -
  from assms have "length (snd (mergeLoops nm rsizes lsizes [])) \<noteq> 0"
    by (simp add: offered_length)
  then have "snd (mergeLoops nm rsizes lsizes []) \<noteq> []" by simp
  then have "offerAll (snd (mergeLoops nm rsizes lsizes [])) [] \<noteq> []"
    by (simp add: offerAll_nonempty)
  then have ne: "fst (mergeLoops nm rsizes lsizes []) \<noteq> []"
    by (subst mergeLoops_eq) simp
  then have "\<exists>r. selectBest (fst (mergeLoops nm rsizes lsizes [])) = Inr r"
    by (simp add: selectBest_def split: list.splits)
  moreover have "addToDimensions n [] = (True, [n])"
    by (simp add: addToDimensions_def)
  moreover have "\<forall>s. \<not> fst (addToDimensions n s) \<longrightarrow> s \<noteq> []"
    by (auto simp: addToDimensions_def)
  ultimately show ?thesis using ne by blast
qed

theorem merged_sizes_nonempty_witness:
  "[\<lparr>height = 2, width = 1, rSelected = None, lSelected = None\<rparr>] \<noteq> [] \<and>
   [\<lparr>height = 1, width = 3, rSelected = None, lSelected = None\<rparr>] \<noteq> [] \<and>
   fst (mergeLoops CHR ''H''
         [\<lparr>height = 2, width = 1, rSelected = None, lSelected = None\<rparr>]
         [\<lparr>height = 1, width = 3, rSelected = None, lSelected = None\<rparr>] []) \<noteq> [] \<and>
   \<not> fst (addToDimensions \<lparr>height = 2, width = 1, rSelected = None, lSelected = None\<rparr>
            [\<lparr>height = 1, width = 1, rSelected = None, lSelected = None\<rparr>]) \<and>
   [\<lparr>height = 1, width = 1, rSelected = None, lSelected = None\<rparr>] \<noteq> []"
proof -
  have r: "[\<lparr>height = 2, width = 1, rSelected = None, lSelected = None\<rparr>] \<noteq> []"
    and l: "[\<lparr>height = 1, width = 3, rSelected = None, lSelected = None\<rparr>] \<noteq> []"
    by simp_all
  have f: "\<not> fst (addToDimensions \<lparr>height = 2, width = 1, rSelected = None, lSelected = None\<rparr>
            [\<lparr>height = 1, width = 1, rSelected = None, lSelected = None\<rparr>])"
    by (simp add: addToDimensions_def Dimensions_eq_def)
  from merged_sizes_nonempty [OF r l, of "CHR ''H''"
      "\<lparr>height = 2, width = 1, rSelected = None, lSelected = None\<rparr>"] f
  show ?thesis by blast
qed


lemma dominates_wh: "dominates p q = (wh p \<le> wh q)"
  by (simp add: dominates_def wh_def)

lemma frontier_below:
  assumes "finite S" "a \<in> S"
  shows "\<exists>m \<in> frontier S. m \<le> a"
proof -
  from finite_has_minimal2 [OF assms]
  obtain m where "m \<in> S" "m \<le> a" "\<forall>b \<in> S. b \<le> m \<longrightarrow> m = b" by blast
  then show ?thesis by (intro bexI [of _ m]) (auto simp: frontier_def)
qed

lemma frontier_insert_reject:
  assumes "x \<in> frontier S" "x \<le> c"
  shows "frontier (insert c S) = frontier S"
proof
  show "frontier (insert c S) \<subseteq> frontier S"
  proof
    fix m assume m: "m \<in> frontier (insert c S)"
    show "m \<in> frontier S"
    proof (cases "m = c")
      case True
      with m assms have "x = m" by (auto simp: frontier_def)
      with assms show ?thesis by simp
    next
      case False
      with m show ?thesis by (auto simp: frontier_def)
    qed
  qed
  show "frontier S \<subseteq> frontier (insert c S)"
  proof
    fix m assume m: "m \<in> frontier S"
    have "c = m" if "c \<le> m"
    proof -
      from assms that have "x \<le> m" by simp
      with m assms(1) have "x = m" by (auto simp: frontier_def)
      with assms(2) that show ?thesis by simp
    qed
    with m show "m \<in> frontier (insert c S)" by (auto simp: frontier_def)
  qed
qed

lemma frontier_insert_accept:
  assumes "finite S" "\<forall>x \<in> frontier S. \<not> x \<le> c"
  shows "frontier (insert c S) = insert c {m \<in> frontier S. \<not> c \<le> m}"
proof -
  have none: "\<not> b \<le> c" if "b \<in> S" for b
  proof
    assume "b \<le> c"
    from frontier_below [OF assms(1) that] obtain m where "m \<in> frontier S" "m \<le> b" by blast
    with \<open>b \<le> c\<close> assms(2) show False by (meson order_trans)
  qed
  show ?thesis
  proof (intro equalityI subsetI)
    fix m assume "m \<in> frontier (insert c S)"
    then show "m \<in> insert c {m \<in> frontier S. \<not> c \<le> m}"
      by (auto simp: frontier_def)
  next
    fix m assume "m \<in> insert c {m \<in> frontier S. \<not> c \<le> m}"
    then show "m \<in> frontier (insert c S)"
      using none by (auto simp: frontier_def)
  qed
qed

lemma wh_filter:
  "wh ` set (filter (\<lambda>x. \<not> dominates n x) xs) = {m \<in> wh ` set xs. \<not> wh n \<le> m}"
  by (auto simp: dominates_wh)

lemma offerAll_snoc: "offerAll (cs @ [c]) s = snd (addToDimensions c (offerAll cs s))"
  by (simp add: offerAll_def)

lemma offerAll_frontier:
  "noDomination (offerAll cs []) \<and> wh ` set (offerAll cs []) = frontier (wh ` set cs)"
proof (induction cs rule: rev_induct)
  case Nil
  show ?case by (simp add: offerAll_def frontier_def)
next
  case (snoc c cs)
  let ?s = "offerAll cs []"
  from snoc have nd: "noDomination ?s" and fr: "wh ` set ?s = frontier (wh ` set cs)"
    by simp_all
  have nd': "noDomination (offerAll (cs @ [c]) [])"
    by (simp add: offerAll_snoc addToDimensions_noDomination [OF nd])
  have "wh ` set (offerAll (cs @ [c]) []) = frontier (wh ` set (cs @ [c]))"
  proof (cases "\<exists>x \<in> set ?s. dominates x c")
    case True
    then obtain x where x: "x \<in> set ?s" "wh x \<le> wh c" by (auto simp: dominates_wh)
    from x(1) fr have "wh x \<in> frontier (wh ` set cs)" by blast
    from frontier_insert_reject [OF this x(2)] True fr show ?thesis
      by (simp add: offerAll_snoc addToDimensions_cases [OF noDomination_dominatesOnlyEqual [OF nd]])
  next
    case False
    then have "\<forall>x \<in> wh ` set ?s. \<not> x \<le> wh c"
      by (auto simp: dominates_wh)
    then have "\<forall>x \<in> frontier (wh ` set cs). \<not> x \<le> wh c"
      by (simp only: fr)
    from frontier_insert_accept [OF _ this]
    have "frontier (wh ` set (cs @ [c])) =
        insert (wh c) {m \<in> frontier (wh ` set cs). \<not> wh c \<le> m}"
      by simp
    moreover have "wh ` set (snd (addToDimensions c ?s)) =
        insert (wh c) {m \<in> wh ` set ?s. \<not> wh c \<le> m}"
      using False wh_filter [of c ?s] by (simp add: addToDimensions_cases [OF noDomination_dominatesOnlyEqual [OF nd]])
    ultimately show ?thesis
      by (simp only: offerAll_snoc fr)
  qed
  with nd' show ?case by simp
qed

text \<open>
  Claim C9. Offering the points that the loops of calcMinArea build from two child
  curves in any other order gives a list with the same set of (width, height) pairs as
  the list the loops build; both are the Pareto frontier of the pairs offered. This
  holds for all child curves, in particular for those without domination.
\<close>

theorem merge_order_independent:
  assumes "mset cs = mset (snd (mergeLoops nm rsizes lsizes []))"
  shows "wh ` set (offerAll cs []) = wh ` set (fst (mergeLoops nm rsizes lsizes []))"
proof -
  from assms have "set cs = set (snd (mergeLoops nm rsizes lsizes []))"
    by (rule mset_eq_setD)
  then have "wh ` set (offerAll cs []) =
             wh ` set (offerAll (snd (mergeLoops nm rsizes lsizes [])) [])"
    by (simp add: offerAll_frontier)
  moreover have "fst (mergeLoops nm rsizes lsizes []) =
      offerAll (snd (mergeLoops nm rsizes lsizes [])) []"
    by (subst mergeLoops_eq) simp
  ultimately show ?thesis by simp
qed

theorem merge_order_independent_witness:
  "mset [\<lparr>height = 4, width = 2, rSelected = Some 0, lSelected = Some 1\<rparr>,
         \<lparr>height = 2, width = 4, rSelected = Some 0, lSelected = Some 0\<rparr>] =
   mset (snd (mergeLoops CHR ''V''
         [\<lparr>height = 2, width = 1, rSelected = None, lSelected = None\<rparr>]
         [\<lparr>height = 1, width = 3, rSelected = None, lSelected = None\<rparr>,
          \<lparr>height = 4, width = 1, rSelected = None, lSelected = None\<rparr>] [])) \<and>
   wh ` set (offerAll
         [\<lparr>height = 4, width = 2, rSelected = Some 0, lSelected = Some 1\<rparr>,
          \<lparr>height = 2, width = 4, rSelected = Some 0, lSelected = Some 0\<rparr>] []) =
   wh ` set (fst (mergeLoops CHR ''V''
         [\<lparr>height = 2, width = 1, rSelected = None, lSelected = None\<rparr>]
         [\<lparr>height = 1, width = 3, rSelected = None, lSelected = None\<rparr>,
          \<lparr>height = 4, width = 1, rSelected = None, lSelected = None\<rparr>] []))"
proof -
  have h: "mset [\<lparr>height = 4, width = 2, rSelected = Some 0, lSelected = Some 1\<rparr>,
         \<lparr>height = 2, width = 4, rSelected = Some 0, lSelected = Some 0\<rparr>] =
   mset (snd (mergeLoops CHR ''V''
         [\<lparr>height = 2, width = 1, rSelected = None, lSelected = None\<rparr>]
         [\<lparr>height = 1, width = 3, rSelected = None, lSelected = None\<rparr>,
          \<lparr>height = 4, width = 1, rSelected = None, lSelected = None\<rparr>] []))"
    by (simp add: mergeLoops_def nSizeV_def)
  from merge_order_independent [OF h] h show ?thesis by blast
qed

section \<open>Properties of isValidNPE\<close>

lemma nOperators_simps [simp]:
  "nOperators [] = 0"
  "nOperators (c # s) = (if isOperatorChar c then Suc (nOperators s) else nOperators s)"
  by (simp_all add: nOperators_def)

lemma nOperands_simps [simp]:
  "nOperands [] = 0"
  "nOperands (c # s) = (if isOperatorChar c then nOperands s else Suc (nOperands s))"
  by (simp_all add: nOperands_def)

lemma ball_prefix_Cons:
  "(\<forall>k \<in> {1..length (c # s)}. P (take k (c # s))) =
     (P [c] \<and> (\<forall>k \<in> {1..length s}. P (c # take k s)))"
proof
  assume l: "\<forall>k \<in> {1..length (c # s)}. P (take k (c # s))"
  have "P [c]" using l [rule_format, of 1] by simp
  moreover have "P (c # take k s)" if "k \<in> {1..length s}" for k
    using l [rule_format, of "Suc k"] that by simp
  ultimately show "P [c] \<and> (\<forall>k \<in> {1..length s}. P (c # take k s))" by blast
next
  assume r: "P [c] \<and> (\<forall>k \<in> {1..length s}. P (c # take k s))"
  show "\<forall>k \<in> {1..length (c # s)}. P (take k (c # s))"
  proof
    fix k assume k: "k \<in> {1..length (c # s)}"
    then obtain j where j: "k = Suc j" by (cases k) auto
    show "P (take k (c # s))"
    proof (cases "j = 0")
      case True
      with j r show ?thesis by simp
    next
      case False
      with k j have "j \<in> {1..length s}" by simp
      with r j show ?thesis by simp
    qed
  qed
qed

lemma noAdjacent_Cons:
  "(\<forall>i. Suc i < length (c # s) \<longrightarrow> isOperatorChar ((c # s) ! i) \<longrightarrow>
        (c # s) ! i \<noteq> (c # s) ! Suc i) =
   ((s \<noteq> [] \<and> isOperatorChar c \<longrightarrow> c \<noteq> hd s) \<and>
    (\<forall>i. Suc i < length s \<longrightarrow> isOperatorChar (s ! i) \<longrightarrow> s ! i \<noteq> s ! Suc i))"
  (is "?L = ?R")
proof
  assume l: ?L
  have "c \<noteq> hd s" if "s \<noteq> []" "isOperatorChar c"
    using l [rule_format, of 0] that by (cases s) auto
  moreover have "s ! i \<noteq> s ! Suc i" if "Suc i < length s" "isOperatorChar (s ! i)" for i
    using l [rule_format, of "Suc i"] that by simp
  ultimately show ?R by blast
next
  assume r: ?R
  show ?L
  proof (intro allI impI)
    fix i
    assume "Suc i < length (c # s)" "isOperatorChar ((c # s) ! i)"
    with r show "(c # s) ! i \<noteq> (c # s) ! Suc i"
      by (cases i; cases s) auto
  qed
qed

lemma isValidNPE_loop_iff:
  "isValidNPE_loop s a b =
     (distinct (filter (\<lambda>c. \<not> isOperatorChar c) s) \<and>
      (\<forall>i. Suc i < length s \<longrightarrow> isOperatorChar (s ! i) \<longrightarrow> s ! i \<noteq> s ! Suc i) \<and>
      (\<forall>k \<in> {1..length s}.
          b + int (nOperators (take k s)) < a + int (nOperands (take k s))) \<and>
      b + int (nOperators s) = a + int (nOperands s) - 1)"
proof (induction s arbitrary: a b)
  case Nil
  show ?case by auto
next
  case (Cons c s)
  show ?case
  proof (cases "isOperatorChar c")
    case True
    then have c: "c = CHR ''V'' \<or> c = CHR ''H''" by (simp add: isOperatorChar_def)
    have "isValidNPE_loop (c # s) a b =
       ((s \<noteq> [] \<longrightarrow> c \<noteq> hd s) \<and> b + 1 < a \<and> isValidNPE_loop s a (b + 1))"
      using c by auto
    also have "\<dots> =
      (distinct (filter (\<lambda>c. \<not> isOperatorChar c) (c # s)) \<and>
       ((s \<noteq> [] \<and> isOperatorChar c \<longrightarrow> c \<noteq> hd s) \<and>
        (\<forall>i. Suc i < length s \<longrightarrow> isOperatorChar (s ! i) \<longrightarrow> s ! i \<noteq> s ! Suc i)) \<and>
       (b + int (nOperators [c]) < a + int (nOperands [c]) \<and>
        (\<forall>k \<in> {1..length s}.
          b + int (nOperators (c # take k s)) < a + int (nOperands (c # take k s)))) \<and>
      b + int (nOperators (c # s)) = a + int (nOperands (c # s)) - 1)"
      unfolding Cons.IH using True by (auto simp: add.assoc)
    finally show ?thesis
      unfolding noAdjacent_Cons
        ball_prefix_Cons [of c s "\<lambda>p. b + int (nOperators p) < a + int (nOperands p)"] .
  next
    case False
    then have c: "\<not> (c = CHR ''V'' \<or> c = CHR ''H'')" by (simp add: isOperatorChar_def)
    have "isValidNPE_loop (c # s) a b =
       (c \<notin> set s \<and> b < a + 1 \<and> isValidNPE_loop s (a + 1) b)"
      using c by auto
    also have "\<dots> =
      (distinct (filter (\<lambda>c. \<not> isOperatorChar c) (c # s)) \<and>
       ((s \<noteq> [] \<and> isOperatorChar c \<longrightarrow> c \<noteq> hd s) \<and>
        (\<forall>i. Suc i < length s \<longrightarrow> isOperatorChar (s ! i) \<longrightarrow> s ! i \<noteq> s ! Suc i)) \<and>
       (b + int (nOperators [c]) < a + int (nOperands [c]) \<and>
        (\<forall>k \<in> {1..length s}.
          b + int (nOperators (c # take k s)) < a + int (nOperands (c # take k s)))) \<and>
      b + int (nOperators (c # s)) = a + int (nOperands (c # s)) - 1)"
      unfolding Cons.IH using False by (auto simp: add.assoc)
    finally show ?thesis
      unfolding noAdjacent_Cons
        ball_prefix_Cons [of c s "\<lambda>p. b + int (nOperators p) < a + int (nOperands p)"] .
  qed
qed

lemma count_list_filter:
  "count_list (filter P s) c = (if P c then count_list s c else 0)"
  by (induction s) auto

lemma distinct_count_list: "distinct s = (\<forall>c \<in> set s. count_list s c = 1)"
proof (induction s)
  case Nil
  show ?case by simp
next
  case (Cons x s)
  have "count_list s x = 0 \<longleftrightarrow> x \<notin> set s" by (simp add: count_list_0_iff)
  with Cons show ?case by (auto simp: count_list_0_iff)
qed

lemma operands_once:
  "distinct (filter (\<lambda>c. \<not> isOperatorChar c) s) =
     (\<forall>c \<in> set s. \<not> isOperatorChar c \<longrightarrow> count_list s c = 1)"
  by (auto simp: distinct_count_list count_list_filter)

lemma isValidNPE_conditions:
  "isValidNPE npe =
     ((\<forall>c \<in> set npe. \<not> isOperatorChar c \<longrightarrow> count_list npe c = 1) \<and>
      (\<forall>i. Suc i < length npe \<longrightarrow> isOperatorChar (npe ! i) \<longrightarrow> npe ! i \<noteq> npe ! Suc i) \<and>
      (\<forall>k \<in> {1..length npe}. nOperators (take k npe) < nOperands (take k npe)) \<and>
      int (nOperators npe) = int (nOperands npe) - 1)"
  unfolding isValidNPE_def isValidNPE_loop_iff operands_once by simp

text \<open>
  Claim C4. isValidNPE returns true exactly when every character that is not an operator
  occurs once in the string, no operator is followed by the same operator, after every
  character (at every non-empty prefix) the operands read are more than the operators
  read, and the number of operators is the number of operands minus one. It returns
  true on 12V3V and false on 1V2V.
\<close>

theorem isValidNPE_iff:
  "(isValidNPE npe \<longleftrightarrow>
     (\<forall>c \<in> set npe. \<not> isOperatorChar c \<longrightarrow> count_list npe c = 1) \<and>
     (\<forall>i. Suc i < length npe \<longrightarrow> isOperatorChar (npe ! i) \<longrightarrow> npe ! i \<noteq> npe ! Suc i) \<and>
     (\<forall>k \<in> {1..length npe}. nOperators (take k npe) < nOperands (take k npe)) \<and>
     int (nOperators npe) = int (nOperands npe) - 1) \<and>
   isValidNPE ''12V3V'' \<and> \<not> isValidNPE ''1V2V''"
proof -
  have "isValidNPE ''12V3V''" "\<not> isValidNPE ''1V2V''"
    by (simp_all add: isValidNPE_def)
  with isValidNPE_conditions [of npe] show ?thesis by blast
qed

theorem isValidNPE_iff_witness:
  "isValidNPE ''12V'' \<and>
   (2::nat) \<in> {1..length ''12V''} \<and> nOperators (take 2 ''12V'') < nOperands (take 2 ''12V'') \<and>
   CHR ''2'' \<in> set ''12V'' \<and> \<not> isOperatorChar CHR ''2'' \<and> count_list ''12V'' CHR ''2'' = 1"
proof -
  have v: "isValidNPE ''12V''" by (simp add: isValidNPE_def)
  from isValidNPE_iff [of "''12V''"] v
  have "\<forall>k \<in> {1..length ''12V''}. nOperators (take k ''12V'') < nOperands (take k ''12V'')"
    and "\<forall>c \<in> set ''12V''. \<not> isOperatorChar c \<longrightarrow> count_list ''12V'' c = 1"
    by blast+
  from this(1) [rule_format, of 2] this(2) [rule_format, of "CHR ''2''"] v
  show ?thesis by (simp add: isOperatorChar_def)
qed

section \<open>Properties of the best-area scan\<close>

lemma bestLoop_scan:
  assumes "all = pre @ xs" "b < length all" "b \<le> length pre" "ba = areaOf (all ! b)"
    "\<forall>j < length pre. ba \<le> areaOf (all ! j)" "\<forall>j < b. ba < areaOf (all ! j)"
  shows "case bestLoop xs (length pre) (b, ba) of
           (b', ba') \<Rightarrow> b' < length all \<and> ba' = areaOf (all ! b') \<and>
             (\<forall>j < length all. ba' \<le> areaOf (all ! j)) \<and> (\<forall>j < b'. ba' < areaOf (all ! j))"
  using assms
proof (induction xs arbitrary: pre b ba)
  case Nil
  then show ?case by simp
next
  case (Cons x xs)
  have all: "all = (pre @ [x]) @ xs" using Cons.prems(1) by simp
  have x: "all ! length pre = x" using Cons.prems(1) by simp
  have len: "length pre < length all" using Cons.prems(1) by simp
  show ?case
  proof (cases "height x * width x < ba")
    case True
    have 1: "\<forall>j < length (pre @ [x]). areaOf x \<le> areaOf (all ! j)"
    proof (intro allI impI)
      fix j assume "j < length (pre @ [x])"
      then have "j < length pre \<or> j = length pre" by auto
      then show "areaOf x \<le> areaOf (all ! j)"
        using Cons.prems(5) True x by (auto simp: areaOf_def)
    qed
    have 2: "\<forall>j < length pre. areaOf x < areaOf (all ! j)"
      using Cons.prems(5) True by (auto simp: areaOf_def)
    from Cons.IH [of "pre @ [x]" "length pre" "areaOf x", OF all len _ _ 1] x 2
    have "case bestLoop xs (Suc (length pre)) (length pre, areaOf x) of
           (b', ba') \<Rightarrow> b' < length all \<and> ba' = areaOf (all ! b') \<and>
             (\<forall>j < length all. ba' \<le> areaOf (all ! j)) \<and> (\<forall>j < b'. ba' < areaOf (all ! j))"
      by simp
    with True show ?thesis by (simp add: areaOf_def)
  next
    case False
    have 1: "\<forall>j < length (pre @ [x]). ba \<le> areaOf (all ! j)"
    proof (intro allI impI)
      fix j assume "j < length (pre @ [x])"
      then have "j < length pre \<or> j = length pre" by auto
      then show "ba \<le> areaOf (all ! j)"
        using Cons.prems(5) False x by (auto simp: areaOf_def)
    qed
    from Cons.IH [of "pre @ [x]" b ba, OF all Cons.prems(2) _ Cons.prems(4) 1 Cons.prems(6)]
      Cons.prems(3)
    have "case bestLoop xs (Suc (length pre)) (b, ba) of
           (b', ba') \<Rightarrow> b' < length all \<and> ba' = areaOf (all ! b') \<and>
             (\<forall>j < length all. ba' \<le> areaOf (all ! j)) \<and> (\<forall>j < b'. ba' < areaOf (all ! j))"
      by simp
    with False show ?thesis by simp
  qed
qed

lemma selectBest_min:
  assumes "szs \<noteq> []"
  shows "\<exists>k. selectBest szs = Inr (k, areaOf (szs ! k)) \<and> k < length szs \<and>
           (\<forall>j < length szs. areaOf (szs ! k) \<le> areaOf (szs ! j)) \<and>
           (\<forall>j < k. areaOf (szs ! k) < areaOf (szs ! j))"
proof -
  from assms obtain b rest where s: "szs = b # rest" by (cases szs) auto
  have "case bestLoop szs (length ([] :: Dimensions list)) (0, areaOf (szs ! 0)) of
           (b', ba') \<Rightarrow> b' < length szs \<and> ba' = areaOf (szs ! b') \<and>
             (\<forall>j < length szs. ba' \<le> areaOf (szs ! j)) \<and> (\<forall>j < b'. ba' < areaOf (szs ! j))"
    using assms by (intro bestLoop_scan) simp_all
  moreover have "selectBest szs = Inr (bestLoop szs 0 (0, areaOf (szs ! 0)))"
    using s by (simp add: selectBest_def areaOf_def)
  ultimately show ?thesis by (auto split: prod.splits)
qed

lemma deref_store_same: "deref h p = Some n \<Longrightarrow> deref (store h p n') p = Some n'"
  by (cases p) (auto simp: deref_def store_def split: if_splits)

lemma evalOperator_min:
  assumes "fst (mergeLoops (name this) rsizes lsizes (sizes this)) \<noteq> []"
  shows "\<exists>this' k. evalOperator this rsizes lsizes = Inr this' \<and>
           sizes this' = fst (mergeLoops (name this) rsizes lsizes (sizes this)) \<and>
           k < length (sizes this') \<and> selected this' = Some (sizes this' ! k) \<and>
           (\<forall>j < length (sizes this'). areaOf (sizes this' ! k) \<le> areaOf (sizes this' ! j)) \<and>
           (\<forall>j < k. areaOf (sizes this' ! k) < areaOf (sizes this' ! j)) \<and>
           area this' = areaOf (sizes this' ! k) \<and>
           aspectRatio this' = height (sizes this' ! k) / width (sizes this' ! k)"
proof -
  let ?m = "fst (mergeLoops (name this) rsizes lsizes (sizes this))"
  from selectBest_min [OF assms] obtain k where
    k: "selectBest ?m = Inr (k, areaOf (?m ! k))" "k < length ?m"
      "\<forall>j < length ?m. areaOf (?m ! k) \<le> areaOf (?m ! j)"
      "\<forall>j < k. areaOf (?m ! k) < areaOf (?m ! j)"
    by blast
  let ?t = "this\<lparr>sizes := ?m, area := areaOf (?m ! k), selected := Some (?m ! k),
                    aspectRatio := height (?m ! k) / width (?m ! k)\<rparr>"
  have "evalOperator this rsizes lsizes = Inr ?t"
    using k(1) by (simp add: evalOperator_def Let_def)
  with k show ?thesis by (intro exI [of _ ?t] exI [of _ k]) simp
qed

section \<open>The NPE of a single operand\<close>

text \<open>
  Claim C6. The curve of the fixed cell A with area 4 and aspect ratio 1 is the single
  point (2, 2), and isValidNPE accepts the string A. generateTree makes an operator node
  of the last character of the string without looking at it, here of the operand A, and
  leaves its two children null; cost then reads through the null pointer \<open>right\<close> in
  calcMinArea and returns no area.
\<close>

theorem cost_single_operand_undefined:
  "sizes (SNode_cell_fixed CHR ''A'' 4 1 True) =
     [\<lparr>height = 2, width = 2, rSelected = None, lSelected = None\<rparr>] \<and>
   isValidNPE ''A'' \<and>
   generateTree ''A'' [SNode_cell_fixed CHR ''A'' 4 1 True] [] =
     Some (Inr (([SNode_cell_fixed CHR ''A'' 4 1 True], [SNode_operator CHR ''A'']), Operator 0)) \<and>
   cost ''A'' [SNode_cell_fixed CHR ''A'' 4 1 True] = Some (Inl UndefinedBehaviour)"
proof -
  have g: "generateTree ''A'' [SNode_cell_fixed CHR ''A'' 4 1 True] [] =
     Some (Inr (([SNode_cell_fixed CHR ''A'' 4 1 True], [SNode_operator CHR ''A'']), Operator 0))"
    by (simp add: generateTree_def isValidNPE_def)
  have "calcMinArea ([SNode_cell_fixed CHR ''A'' 4 1 True], [SNode_operator CHR ''A''])
      (Operator 0) = Some (Inl UndefinedBehaviour)"
    by (subst calcMinArea.simps) (simp add: deref_def store_def SNode_operator_def)
  with g have "cost ''A'' [SNode_cell_fixed CHR ''A'' 4 1 True] = Some (Inl UndefinedBehaviour)"
    by (simp add: cost_def)
  moreover have "sizes (SNode_cell_fixed CHR ''A'' 4 1 True) =
     [\<lparr>height = 2, width = 2, rSelected = None, lSelected = None\<rparr>]"
    by (simp add: SNode_cell_fixed_def calcWandH_def)
  moreover have "isValidNPE ''A''" by (simp add: isValidNPE_def)
  ultimately show ?thesis using g by blast
qed

text \<open>
  Claim C8. generateTree does not look the last character of the string up in the
  cells: on the string A, which isValidNPE accepts, and an empty list of cells it returns
  a root and raises no failure, although the operand A has no cell.
\<close>

theorem generateTree_single_operand_no_failure:
  "isValidNPE ''A'' \<and> findCell [] CHR ''A'' 0 Null = Null \<and>
   generateTree ''A'' [] [] = Some (Inr (([], [SNode_operator CHR ''A'']), Operator 0))"
  by (simp add: generateTree_def isValidNPE_def)

section \<open>The curve of a leaf\<close>

lemma calcWandH_free_sizes:
  "sizes (SNode_cell c ar asp) =
     [\<lparr>height = sqrt (asp * ar), width = ar / sqrt (asp * ar), rSelected = None, lSelected = None\<rparr>,
      \<lparr>height = ar / sqrt (asp * ar), width = sqrt (asp * ar), rSelected = None, lSelected = None\<rparr>]"
  by (simp add: SNode_cell_def calcWandH_def Let_def)

lemma calcWandH_fixed_noDomination: "noDomination (sizes (SNode_cell_fixed c ar asp True))"
  by (simp add: SNode_cell_fixed_def calcWandH_def Let_def)

lemma calcWandH_free_noDomination:
  assumes "0 < ar" "0 < asp"
  shows "noDomination (sizes (SNode_cell c ar asp)) = (asp \<noteq> 1)"
proof -
  let ?h = "sqrt (asp * ar)"
  have h: "0 < ?h" using assms by simp
  have hh: "?h * ?h = asp * ar" using assms by simp
  have "ar / ?h = ?h \<longleftrightarrow> ar = ?h * ?h"
    using h by (metis nonzero_divide_eq_eq less_irrefl)
  also have "\<dots> \<longleftrightarrow> ar = asp * ar" by (simp only: hh)
  also have "\<dots> \<longleftrightarrow> asp = 1" using assms(1) by simp
  finally have e: "ar / ?h = ?h \<longleftrightarrow> asp = 1" .
  have "noDomination (sizes (SNode_cell c ar asp)) = (ar / ?h \<noteq> ?h)"
    by (auto simp: calcWandH_free_sizes dominates_def)
  with e show ?thesis by simp
qed

lemma calcWandH_free_dominatesOnlyEqual: "dominatesOnlyEqual (sizes (SNode_cell c ar asp))"
  by (auto simp: calcWandH_free_sizes dominatesOnlyEqual_def dominates_def Dimensions_eq_def)

text \<open>
  Claim C7. calcWandH appends the rotated point without the test that addToDimensions
  makes: for the cell of area 4 and aspect ratio 1 that is not fixed, the list holds the
  point (2, 2) twice, and each of the two elements weakly dominates the other.
\<close>

theorem calcWandH_square_duplicate:
  "sizes (SNode_cell CHR ''A'' 4 1) =
     [\<lparr>height = 2, width = 2, rSelected = None, lSelected = None\<rparr>,
      \<lparr>height = 2, width = 2, rSelected = None, lSelected = None\<rparr>] \<and>
   \<not> noDomination (sizes (SNode_cell CHR ''A'' 4 1))"
  by (simp add: calcWandH_free_sizes dominates_def)

lemma mergeLoops_noDomination: "noDomination (fst (mergeLoops nm rs ls []))"
proof -
  have "fst (mergeLoops nm rs ls []) = offerAll (snd (mergeLoops nm rs ls [])) []"
    by (subst mergeLoops_eq) simp
  then show ?thesis by (simp add: offerAll_frontier)
qed

section \<open>Properties of generateTree\<close>

lemma length_nodesOf [simp]: "length (nodesOf cells t lo par) = nops t"
  by (induction t arbitrary: lo par) auto

lemma rev_postfix_Node:
  "rev (postfix (Node c l r)) = c # rev (postfix r) @ rev (postfix l)"
  by simp

lemma findCell_cases:
  "findCell cells c i child = child \<or>
   (\<exists>j < length cells. findCell cells c i child = Cell (i + j) \<and> name (cells ! j) = c)"
proof (induction cells arbitrary: i child)
  case Nil
  show ?case by simp
next
  case (Cons x xs)
  from Cons.IH [of "Suc i" "if name x = c then Cell i else child"]
  show ?case
  proof
    assume "findCell xs c (Suc i) (if name x = c then Cell i else child) =
      (if name x = c then Cell i else child)"
    then show ?thesis by (cases "name x = c") auto
  next
    assume "\<exists>j < length xs.
      findCell xs c (Suc i) (if name x = c then Cell i else child) = Cell (Suc i + j) \<and>
      name (xs ! j) = c"
    then obtain j where "j < length xs"
      "findCell xs c (Suc i) (if name x = c then Cell i else child) = Cell (Suc i + j)"
      "name (xs ! j) = c" by blast
    then have "Suc j < length (x # xs) \<and>
      findCell (x # xs) c i child = Cell (i + Suc j) \<and> name ((x # xs) ! Suc j) = c"
      by simp
    then show ?thesis by blast
  qed
qed

lemma findCell_Null_iff:
  "(findCell cells c i child = Null) = (child = Null \<and> c \<notin> name ` set cells)"
  by (induction cells arbitrary: i child) auto

lemma stepOperator_right:
  assumes "k < length ops" "right (ops ! k) = Null"
  shows "stepOperator (cells, ops) (Operator k) c =
     Some (Inr ((cells, ops[k := (ops ! k)\<lparr>right := Operator (length ops)\<rparr>] @
                  [(SNode_operator c)\<lparr>parent := Operator k\<rparr>]), Operator (length ops)))"
  using assms
  by (simp add: stepOperator_def deref_def store_def nth_append list_update_append Let_def)

lemma stepOperator_left:
  assumes "k < length ops" "right (ops ! k) \<noteq> Null"
  shows "stepOperator (cells, ops) (Operator k) c =
     Some (Inr ((cells, ops[k := (ops ! k)\<lparr>left := Operator (length ops)\<rparr>] @
                  [(SNode_operator c)\<lparr>parent := Operator k\<rparr>]), Operator (length ops)))"
  using assms
  by (simp add: stepOperator_def deref_def store_def nth_append list_update_append Let_def)

lemma stepOperand_missing:
  "findCell cells c 0 Null = Null \<Longrightarrow>
   stepOperand (cells, ops) current c = Some (Inl (Thrown ''Cell data not valid!''))"
  by (simp add: stepOperand_def)

lemma stepOperand_right:
  assumes "k < length ops" "right (ops ! k) = Null" "findCell cells c 0 Null \<noteq> Null"
  shows "stepOperand (cells, ops) (Operator k) c =
     Some (Inr ((cells, ops[k := (ops ! k)\<lparr>right := findCell cells c 0 Null\<rparr>]), Operator k))"
  using assms by (simp add: stepOperand_def deref_def store_def Let_def)

lemma stepOperand_left:
  assumes "k < length ops" "right (ops ! k) \<noteq> Null" "findCell cells c 0 Null \<noteq> Null"
  shows "stepOperand (cells, ops) (Operator k) c =
     (case walkUp (cells, ops[k := (ops ! k)\<lparr>left := findCell cells c 0 Null\<rparr>]) (Operator k) of
        None \<Rightarrow> None
      | Some (Inl e) \<Rightarrow> Some (Inl e)
      | Some (Inr current') \<Rightarrow>
          Some (Inr ((cells, ops[k := (ops ! k)\<lparr>left := findCell cells c 0 Null\<rparr>]), current')))"
  using assms by (simp add: stepOperand_def deref_def store_def Let_def)

lemma walkUp_front: "walkUp h (Operator 0) = Some (Inr (Operator 0))"
  by (subst walkUp.simps) simp

lemma walkUp_stop:
  "k < length ops \<Longrightarrow> left (ops ! k) = Null \<Longrightarrow>
   walkUp (cells, ops) (Operator k) = Some (Inr (Operator k))"
  by (subst walkUp.simps) (simp add: deref_def)

lemma walkUp_step:
  "0 < m \<Longrightarrow> m < length ops \<Longrightarrow> left (ops ! m) \<noteq> Null \<Longrightarrow>
   walkUp (cells, ops) (Operator m) = walkUp (cells, ops) (parent (ops ! m))"
  by (subst walkUp.simps) (simp add: deref_def)

lemma rootPtr_not_Null: "found cells t \<Longrightarrow> rootPtr cells t lo \<noteq> Null"
  by (cases t) auto

lemma loop_operator:
  "isOperatorChar c \<Longrightarrow>
   generateTree_loop h current (c # cs) =
     (case stepOperator h current c of
        None \<Rightarrow> None
      | Some (Inl e) \<Rightarrow> Some (Inl e)
      | Some (Inr (h', current')) \<Rightarrow> generateTree_loop h' current' cs)"
  by (simp add: isOperatorChar_def)

lemma loop_operand:
  "\<not> isOperatorChar c \<Longrightarrow>
   generateTree_loop h current (c # cs) =
     (case stepOperand h current c of
        None \<Rightarrow> None
      | Some (Inl e) \<Rightarrow> Some (Inl e)
      | Some (Inr (h', current')) \<Rightarrow> generateTree_loop h' current' cs)"
  by (simp add: isOperatorChar_def)


lemma node_layout:
  assumes "length ops' = m"
  shows "fillLeft cells (fillRight cells (ops' @ [(SNode_operator c)\<lparr>parent := par\<rparr>]) m r) m l =
           ops' @ nodesOf cells (Node c l r) m par"
  using assms
  by (simp add: fillLeft_def fillRight_def list_update_append nth_append SNode_operator_def)

lemma fillRight_length [simp]: "length (fillRight cells ops k t) = length ops + nops t"
  by (simp add: fillRight_def)

lemma fillLeft_length [simp]: "length (fillLeft cells ops k t) = length ops + nops t"
  by (simp add: fillLeft_def)

lemma fill:
  assumes "shaped t" "k < length ops"
  shows "(right (ops ! k) = Null \<and> left (ops ! k) = Null \<longrightarrow>
           generateTree_loop (cells, ops) (Operator k) (rev (postfix t) @ rest) =
             (if found cells t
              then generateTree_loop (cells, fillRight cells ops k t) (Operator k) rest
              else Some (Inl (Thrown ''Cell data not valid!'')))) \<and>
         (right (ops ! k) \<noteq> Null \<longrightarrow>
           generateTree_loop (cells, ops) (Operator k) (rev (postfix t) @ rest) =
             (if found cells t
              then resume (cells, fillLeft cells ops k t)
                     (walkUp (cells, fillLeft cells ops k t) (Operator k)) rest
              else Some (Inl (Thrown ''Cell data not valid!''))))"
  using assms
proof (induction t arbitrary: ops k rest)
  case (Leaf c)
  then have c: "\<not> isOperatorChar c" by simp
  show ?case
  proof (cases "findCell cells c 0 Null = Null")
    case True
    then show ?thesis
      using c by (simp add: loop_operand stepOperand_missing del: generateTree_loop.simps)
  next
    case False
    show ?thesis
    proof (intro conjI impI)
      assume "right (ops ! k) = Null \<and> left (ops ! k) = Null"
      then show "generateTree_loop (cells, ops) (Operator k) (rev (postfix (Leaf c)) @ rest) =
             (if found cells (Leaf c)
              then generateTree_loop (cells, fillRight cells ops k (Leaf c)) (Operator k) rest
              else Some (Inl (Thrown ''Cell data not valid!'')))"
        using c False Leaf.prems(2)
        by (simp add: loop_operand stepOperand_right fillRight_def del: generateTree_loop.simps)
    next
      assume "right (ops ! k) \<noteq> Null"
      then show "generateTree_loop (cells, ops) (Operator k) (rev (postfix (Leaf c)) @ rest) =
             (if found cells (Leaf c)
              then resume (cells, fillLeft cells ops k (Leaf c))
                     (walkUp (cells, fillLeft cells ops k (Leaf c)) (Operator k)) rest
              else Some (Inl (Thrown ''Cell data not valid!'')))"
        using c False Leaf.prems(2)
        by (simp add: loop_operand stepOperand_left fillLeft_def resume_def
            del: generateTree_loop.simps split: option.splits sum.splits)
    qed
  qed
next
  case (Node c l r)
  from Node.prems have c: "isOperatorChar c" and sl: "shaped l" and sr: "shaped r"
    by simp_all
  let ?m = "length ops"
  let ?new = "(SNode_operator c)\<lparr>parent := Operator k\<rparr>"
  have str: "rev (postfix (Node c l r)) @ rest = c # rev (postfix r) @ (rev (postfix l) @ rest)"
    by simp
  have km: "k < ?m" by (rule Node.prems(2))
  have child: "generateTree_loop (cells, opsk @ [?new]) (Operator ?m)
        (rev (postfix r) @ (rev (postfix l) @ rest)) =
      (if found cells (Node c l r)
       then resume (cells, opsk @ nodesOf cells (Node c l r) ?m (Operator k))
              (walkUp (cells, opsk @ nodesOf cells (Node c l r) ?m (Operator k)) (Operator ?m)) rest
       else Some (Inl (Thrown ''Cell data not valid!'')))"
    if len: "length opsk = ?m" for opsk
  proof -
    let ?ops1 = "opsk @ [?new]"
    have m1: "?m < length ?ops1" using len by simp
    have new1: "?ops1 ! ?m = ?new" using len by (simp add: nth_append)
    have fresh: "right (?ops1 ! ?m) = Null \<and> left (?ops1 ! ?m) = Null"
      unfolding new1 by (simp add: SNode_operator_def)
    from Node.IH(2) [OF sr m1, of "rev (postfix l) @ rest"] fresh
    have r: "generateTree_loop (cells, ?ops1) (Operator ?m)
        (rev (postfix r) @ (rev (postfix l) @ rest)) =
      (if found cells r
       then generateTree_loop (cells, fillRight cells ?ops1 ?m r) (Operator ?m)
              (rev (postfix l) @ rest)
       else Some (Inl (Thrown ''Cell data not valid!'')))"
      by blast
    show ?thesis
    proof (cases "found cells r")
      case False
      with r show ?thesis by simp
    next
      case True
      let ?ops2 = "fillRight cells ?ops1 ?m r"
      have m2: "?m < length ?ops2" using len by simp
      have "?ops2 ! ?m = ?new\<lparr>right := rootPtr cells r (length ?ops1)\<rparr>"
        using len by (simp add: fillRight_def nth_append)
      then have full: "right (?ops2 ! ?m) \<noteq> Null"
        using rootPtr_not_Null [OF True] by simp
      from Node.IH(1) [OF sl m2, of rest] full
      have "generateTree_loop (cells, ?ops2) (Operator ?m) (rev (postfix l) @ rest) =
        (if found cells l
         then resume (cells, fillLeft cells ?ops2 ?m l)
                (walkUp (cells, fillLeft cells ?ops2 ?m l) (Operator ?m)) rest
         else Some (Inl (Thrown ''Cell data not valid!'')))"
        by blast
      with r True show ?thesis
        by (simp add: node_layout [OF len])
    qed
  qed
  have up: "walkUp (cells, opsk @ nodesOf cells (Node c l r) ?m (Operator k)) (Operator ?m) =
      walkUp (cells, opsk @ nodesOf cells (Node c l r) ?m (Operator k)) (Operator k)"
    if len: "length opsk = ?m" and f: "found cells (Node c l r)" for opsk
  proof -
    let ?ops3 = "opsk @ nodesOf cells (Node c l r) ?m (Operator k)"
    have n: "?ops3 ! ?m = (SNode_operator c)\<lparr>right := rootPtr cells r (Suc ?m),
        left := rootPtr cells l (Suc ?m + nops r), parent := Operator k\<rparr>"
      using len by (simp add: nth_append)
    have "left (?ops3 ! ?m) \<noteq> Null"
      unfolding n using f rootPtr_not_Null [of cells l] by simp
    moreover have "0 < ?m" using km by (cases ops) simp_all
    moreover have "?m < length ?ops3" using len by simp
    ultimately have "walkUp (cells, ?ops3) (Operator ?m) =
        walkUp (cells, ?ops3) (parent (?ops3 ! ?m))"
      by (rule walkUp_step [rotated 2])
    then show ?thesis unfolding n by simp
  qed
  show ?case
  proof (intro conjI impI)
    assume a: "right (ops ! k) = Null \<and> left (ops ! k) = Null"
    let ?opsk = "ops[k := (ops ! k)\<lparr>right := Operator ?m\<rparr>]"
    have len: "length ?opsk = ?m" by simp
    have step: "stepOperator (cells, ops) (Operator k) c =
        Some (Inr ((cells, ?opsk @ [?new]), Operator ?m))"
      using km a by (simp add: stepOperator_right)
    have fr: "fillRight cells ops k (Node c l r) =
        ?opsk @ nodesOf cells (Node c l r) ?m (Operator k)"
      by (simp add: fillRight_def)
    show "generateTree_loop (cells, ops) (Operator k) (rev (postfix (Node c l r)) @ rest) =
             (if found cells (Node c l r)
              then generateTree_loop (cells, fillRight cells ops k (Node c l r)) (Operator k) rest
              else Some (Inl (Thrown ''Cell data not valid!'')))"
    proof (cases "found cells (Node c l r)")
      case False
      with child [OF len] step c show ?thesis
        unfolding str by (simp add: loop_operator del: generateTree_loop.simps found.simps)
    next
      case True
      let ?ops3 = "?opsk @ nodesOf cells (Node c l r) ?m (Operator k)"
      have "left (?ops3 ! k) = Null" using km a by (simp add: nth_append)
      moreover have "k < length ?ops3" using km by simp
      ultimately have "walkUp (cells, ?ops3) (Operator k) = Some (Inr (Operator k))"
        by (rule walkUp_stop [rotated])
      with up [OF len True]
      have "walkUp (cells, ?ops3) (Operator ?m) = Some (Inr (Operator k))" by simp
      with child [OF len] step c True show ?thesis
        unfolding str fr by (simp add: loop_operator resume_def del: generateTree_loop.simps found.simps)
    qed
  next
    assume a: "right (ops ! k) \<noteq> Null"
    let ?opsk = "ops[k := (ops ! k)\<lparr>left := Operator ?m\<rparr>]"
    have len: "length ?opsk = ?m" by simp
    have step: "stepOperator (cells, ops) (Operator k) c =
        Some (Inr ((cells, ?opsk @ [?new]), Operator ?m))"
      using km a by (simp add: stepOperator_left)
    have fl: "fillLeft cells ops k (Node c l r) =
        ?opsk @ nodesOf cells (Node c l r) ?m (Operator k)"
      by (simp add: fillLeft_def)
    show "generateTree_loop (cells, ops) (Operator k) (rev (postfix (Node c l r)) @ rest) =
             (if found cells (Node c l r)
              then resume (cells, fillLeft cells ops k (Node c l r))
                     (walkUp (cells, fillLeft cells ops k (Node c l r)) (Operator k)) rest
              else Some (Inl (Thrown ''Cell data not valid!'')))"
    proof (cases "found cells (Node c l r)")
      case False
      with child [OF len] step c show ?thesis
        unfolding str by (simp add: loop_operator del: generateTree_loop.simps found.simps)
    next
      case True
      with child [OF len] up [OF len True] step c show ?thesis
        unfolding str fl by (simp add: loop_operator del: generateTree_loop.simps found.simps)
    qed
  qed
qed


lemma found_iff:
  "shaped t \<Longrightarrow>
   found cells t = (\<forall>c \<in> set (postfix t). \<not> isOperatorChar c \<longrightarrow> c \<in> name ` set cells)"
  by (induction t) (auto simp: findCell_Null_iff)

lemma generateTree_Node:
  assumes "shaped (Node c l r)" "isValidNPE (postfix (Node c l r))"
  shows "generateTree (postfix (Node c l r)) cells operators =
           (if found cells (Node c l r)
            then Some (Inr ((cells, nodesOf cells (Node c l r) 0 Null), Operator 0))
            else Some (Inl (Thrown ''Cell data not valid!'')))"
proof -
  from assms(1) have sl: "shaped l" and sr: "shaped r" by simp_all
  let ?ops1 = "[(SNode_operator c)\<lparr>parent := Null\<rparr>]"
  have n: "?ops1 = [SNode_operator c]" by (simp add: SNode_operator_def)
  have g: "generateTree (postfix (Node c l r)) cells operators =
      (case generateTree_loop (cells, ?ops1) (Operator 0)
              (rev (postfix r) @ (rev (postfix l) @ [])) of
         None \<Rightarrow> None
       | Some (Inl e) \<Rightarrow> Some (Inl e)
       | Some (Inr (h, current)) \<Rightarrow> Some (Inr (h, Operator 0)))"
    using assms(2) by (simp add: generateTree_def n del: generateTree_loop.simps)
  have "right (?ops1 ! 0) = Null \<and> left (?ops1 ! 0) = Null"
    by (simp add: SNode_operator_def)
  with fill [OF sr, of 0 ?ops1 cells "rev (postfix l) @ []"]
  have r: "generateTree_loop (cells, ?ops1) (Operator 0)
        (rev (postfix r) @ (rev (postfix l) @ [])) =
      (if found cells r
       then generateTree_loop (cells, fillRight cells ?ops1 0 r) (Operator 0)
              (rev (postfix l) @ [])
       else Some (Inl (Thrown ''Cell data not valid!'')))"
    by simp
  show ?thesis
  proof (cases "found cells r")
    case False
    with g r show ?thesis by simp
  next
    case True
    let ?ops2 = "fillRight cells ?ops1 0 r"
    have "?ops2 ! 0 = (SNode_operator c)\<lparr>parent := Null, right := rootPtr cells r 1\<rparr>"
      by (simp add: fillRight_def)
    then have full: "right (?ops2 ! 0) \<noteq> Null"
      using rootPtr_not_Null [OF True] by simp
    have "0 < length ?ops2" by simp
    from fill [OF sl this, of cells "[]"] full
    have l: "generateTree_loop (cells, ?ops2) (Operator 0) (rev (postfix l) @ []) =
      (if found cells l
       then resume (cells, fillLeft cells ?ops2 0 l)
              (walkUp (cells, fillLeft cells ?ops2 0 l) (Operator 0)) []
       else Some (Inl (Thrown ''Cell data not valid!'')))"
      by blast
    have lay: "fillLeft cells ?ops2 0 l = nodesOf cells (Node c l r) 0 Null"
      using node_layout [where ops' = "[]" and m = 0 and cells = cells and c = c and par = Null
          and r = r and l = l]
      by simp
    show ?thesis
    proof (cases "found cells l")
      case False
      with g r l True show ?thesis by simp
    next
      case f: True
      have "generateTree_loop (cells, ?ops1) (Operator 0)
          (rev (postfix r) @ (rev (postfix l) @ [])) =
        Some (Inr ((cells, nodesOf cells (Node c l r) 0 Null), Operator 0))"
        unfolding r l lay using True f
        by (simp add: walkUp_front resume_def del: nodesOf.simps)
      with g True f show ?thesis by (simp del: nodesOf.simps)
    qed
  qed
qed

lemma postfix_build_loop_ballot:
  assumes "\<forall>k \<in> {1..length s}. nOperators (take k s) < length st + nOperands (take k s)"
    and "\<forall>t \<in> set st. shaped t"
  shows "\<exists>st'. postfix_build_loop s st = Some st' \<and> (\<forall>t \<in> set st'. shaped t) \<and>
           concat (map postfix (rev st')) = concat (map postfix (rev st)) @ s \<and>
           length st' + nOperators s = length st + nOperands s"
  using assms
proof (induction s arbitrary: st)
  case Nil
  then show ?case by simp
next
  case (Cons c s)
  from Cons.prems(1) have
    one: "nOperators [c] < length st + nOperands [c]"
    and more: "\<forall>k \<in> {1..length s}.
      nOperators (c # take k s) < length st + nOperands (c # take k s)"
    unfolding ball_prefix_Cons [of c s "\<lambda>p. nOperators p < length st + nOperands p"]
    by blast+
  show ?case
  proof (cases "isOperatorChar c")
    case True
    with one have "2 \<le> length st" by simp
    then obtain recent before rest where st: "st = recent # before # rest"
      by (cases st; cases "tl st") auto
    let ?st = "Node c before recent # rest"
    have "\<forall>k \<in> {1..length s}. nOperators (take k s) < length ?st + nOperands (take k s)"
      using more True st by simp
    moreover have "\<forall>t \<in> set ?st. shaped t" using Cons.prems(2) True st by simp
    ultimately obtain st' where
      "postfix_build_loop s ?st = Some st'" "\<forall>t \<in> set st'. shaped t"
      "concat (map postfix (rev st')) = concat (map postfix (rev ?st)) @ s"
      "length st' + nOperators s = length ?st + nOperands s"
      using Cons.IH [of ?st] by blast
    then show ?thesis using True st by (simp add: isOperatorChar_def)
  next
    case False
    let ?st = "Leaf c # st"
    have "\<forall>k \<in> {1..length s}. nOperators (take k s) < length ?st + nOperands (take k s)"
      using more False by simp
    moreover have "\<forall>t \<in> set ?st. shaped t" using Cons.prems(2) False by simp
    ultimately obtain st' where
      "postfix_build_loop s ?st = Some st'" "\<forall>t \<in> set st'. shaped t"
      "concat (map postfix (rev st')) = concat (map postfix (rev ?st)) @ s"
      "length st' + nOperators s = length ?st + nOperands s"
      using Cons.IH [of ?st] by blast
    then show ?thesis using False by (simp add: isOperatorChar_def)
  qed
qed

lemma isValidNPE_postfix_build:
  assumes "isValidNPE npe"
  shows "\<exists>t. postfix_build npe = Some t \<and> shaped t \<and> postfix t = npe"
proof -
  from assms have
    b: "\<forall>k \<in> {1..length npe}. nOperators (take k npe) < nOperands (take k npe)"
    and e: "int (nOperators npe) = int (nOperands npe) - 1"
    unfolding isValidNPE_conditions by blast+
  from b have "\<forall>k \<in> {1..length npe}.
      nOperators (take k npe) < length ([] :: tree list) + nOperands (take k npe)"
    by simp
  from postfix_build_loop_ballot [OF this] obtain st' where
    st': "postfix_build_loop npe [] = Some st'" "\<forall>t \<in> set st'. shaped t"
      "concat (map postfix (rev st')) = npe" "length st' + nOperators npe = nOperands npe"
    by auto
  from st'(4) e have "length st' = 1" by linarith
  then obtain t where "st' = [t]" by (cases st') auto
  with st' show ?thesis by (simp add: postfix_build_def)
qed


lemma embeds_append:
  "embeds ops lo (as @ bs) = (embeds ops lo as \<and> embeds ops (lo + length as) bs)"
  by (induction as arbitrary: lo) auto

lemma embeds_self: "embeds (pre @ ns) (length pre) ns"
proof (induction ns arbitrary: pre)
  case Nil
  show ?case by simp
next
  case (Cons n ns)
  from Cons [of "pre @ [n]"] show ?case by simp
qed

lemma deref_found_cell:
  assumes "findCell cells c 0 Null \<noteq> Null"
  shows "\<exists>j < length cells. findCell cells c 0 Null = Cell j \<and>
           deref (cells, ops) (Cell j) = Some (cells ! j) \<and> name (cells ! j) = c"
  using findCell_cases [of cells c 0 Null] assms by (auto simp: deref_def)

lemma deref_layout_Node:
  assumes "embeds ops lo (nodesOf cells (Node c l r) lo par)"
  shows "deref (cells, ops) (Operator lo) =
           Some ((SNode_operator c)\<lparr>right := rootPtr cells r (Suc lo),
              left := rootPtr cells l (Suc lo + nops r), parent := par\<rparr>)"
    and "embeds ops (Suc lo) (nodesOf cells r (Suc lo) (Operator lo))"
    and "embeds ops (Suc lo + nops r) (nodesOf cells l (Suc lo + nops r) (Operator lo))"
  using assms by (auto simp: deref_def embeds_append)

lemma printNode_layout:
  assumes "shaped t" "found cells t" "\<forall>n \<in> set cells. \<not> isOperator n"
    "embeds ops lo (nodesOf cells t lo par)"
  shows "printNode (cells, ops) (rootPtr cells t lo) = Some (Inr (postfix t))"
  using assms
proof (induction t arbitrary: lo par)
  case (Leaf c)
  from deref_found_cell [of cells c ops] Leaf.prems(2) obtain j where
    j: "j < length cells" "findCell cells c 0 Null = Cell j"
      "deref (cells, ops) (Cell j) = Some (cells ! j)" "name (cells ! j) = c"
    by auto
  from j(1) Leaf.prems(3) have "\<not> isOperator (cells ! j)" by simp
  with j show ?case by (subst printNode.simps) simp
next
  case (Node c l r)
  note d = deref_layout_Node [OF Node.prems(4)]
  from Node.prems have
    "printNode (cells, ops) (rootPtr cells l (Suc lo + nops r)) = Some (Inr (postfix l))"
    by (intro Node.IH(1) [OF _ _ _ d(3)]) simp_all
  moreover from Node.prems have
    "printNode (cells, ops) (rootPtr cells r (Suc lo)) = Some (Inr (postfix r))"
    by (intro Node.IH(2) [OF _ _ _ d(2)]) simp_all
  ultimately show ?case
    by (subst printNode.simps) (simp add: d(1) SNode_operator_def)
qed

lemma represents_layout:
  assumes "shaped t" "found cells t" "\<forall>n \<in> set cells. \<not> isOperator n"
    "embeds ops lo (nodesOf cells t lo par)"
  shows "represents (cells, ops) (rootPtr cells t lo) t"
  using assms
proof (induction t arbitrary: lo par)
  case (Leaf c)
  from deref_found_cell [of cells c ops] Leaf.prems(2) obtain j where
    j: "j < length cells" "findCell cells c 0 Null = Cell j"
      "deref (cells, ops) (Cell j) = Some (cells ! j)" "name (cells ! j) = c"
    by auto
  from j(1) Leaf.prems(3) have "\<not> isOperator (cells ! j)" by simp
  with j show ?case by simp
next
  case (Node c l r)
  note d = deref_layout_Node [OF Node.prems(4)]
  from Node.prems have "represents (cells, ops) (rootPtr cells l (Suc lo + nops r)) l"
    by (intro Node.IH(1) [OF _ _ _ d(3)]) simp_all
  moreover from Node.prems have "represents (cells, ops) (rootPtr cells r (Suc lo)) r"
    by (intro Node.IH(2) [OF _ _ _ d(2)]) simp_all
  ultimately show ?case
    by (simp add: d(1) SNode_operator_def)
qed

lemma generateTree_result:
  assumes "isValidNPE npe" "2 \<le> length npe"
  shows "\<exists>t. postfix_build npe = Some t \<and> shaped t \<and> postfix t = npe \<and>
           generateTree npe cells operators =
             (if \<forall>c \<in> set npe. \<not> isOperatorChar c \<longrightarrow> c \<in> name ` set cells
              then Some (Inr ((cells, nodesOf cells t 0 Null), Operator 0))
              else Some (Inl (Thrown ''Cell data not valid!'')))"
proof -
  from isValidNPE_postfix_build [OF assms(1)] obtain t where
    t: "postfix_build npe = Some t" "shaped t" "postfix t = npe" by blast
  from t(3) assms(2) obtain c l r where n: "t = Node c l r" by (cases t) auto
  from generateTree_Node [of c l r cells operators] t assms(1) n
  have "generateTree npe cells operators =
      (if found cells t
       then Some (Inr ((cells, nodesOf cells t 0 Null), Operator 0))
       else Some (Inl (Thrown ''Cell data not valid!'')))"
    by simp
  with t show ?thesis by (simp add: found_iff [OF t(2)])
qed

text \<open>
  Claim C3, as stated, fails: for the string 12V generateTree makes the cell 1 the left
  child and the cell 2 the right child of the root, while the stack-based construction
  of the specification, which makes the most recently pushed node the left child, gives
  the tree with left child 2 and right child 1, whose print is 21V.
\<close>

theorem generateTree_spec_build_counterexample:
  "isValidNPE ''12V'' \<and>
   generateTree ''12V'' cells123 [] = Some (Inr (heap12V, Operator 0)) \<and>
   spec_build ''12V'' = Some (Node CHR ''V'' (Leaf CHR ''2'') (Leaf CHR ''1'')) \<and>
   \<not> represents heap12V (Operator 0) (Node CHR ''V'' (Leaf CHR ''2'') (Leaf CHR ''1'')) \<and>
   represents heap12V (Operator 0) (Node CHR ''V'' (Leaf CHR ''1'') (Leaf CHR ''2'')) \<and>
   printNode heap12V (Operator 0) = Some (Inr ''12V'') \<and>
   postfix (Node CHR ''V'' (Leaf CHR ''2'') (Leaf CHR ''1'')) = ''21V''"
proof -
  have n: "map name cells123 = ''123''" "map isOperator cells123 = [False, False, False]"
    by (simp_all add: cells123_def SNode_cell_def calcWandH_def Let_def)
  have v: "isValidNPE ''12V''" by (simp add: isValidNPE_def)
  have f: "findCell cells123 CHR ''1'' 0 Null = Cell 0" "findCell cells123 CHR ''2'' 0 Null = Cell 1"
    by (simp_all add: cells123_def SNode_cell_def calcWandH_def Let_def)
  have g: "generateTree ''12V'' cells123 [] = Some (Inr (heap12V, Operator 0))"
    using v f
    by (simp add: generateTree_def stepOperand_def deref_def store_def walkUp_front
        SNode_operator_def heap12V_def)
  have d: "deref heap12V (Cell 0) = Some (cells123 ! 0)" "deref heap12V (Cell 1) = Some (cells123 ! 1)"
    "name (cells123 ! 0) = CHR ''1''" "name (cells123 ! 1) = CHR ''2''"
    "\<not> isOperator (cells123 ! 0)" "\<not> isOperator (cells123 ! 1)"
    by (simp_all add: heap12V_def deref_def cells123_def SNode_cell_def calcWandH_def Let_def)
  have d0: "deref heap12V (Operator 0) = Some (snd heap12V ! 0)"
    by (simp add: heap12V_def deref_def)
  have r: "\<not> represents heap12V (Operator 0) (Node CHR ''V'' (Leaf CHR ''2'') (Leaf CHR ''1''))"
    "represents heap12V (Operator 0) (Node CHR ''V'' (Leaf CHR ''1'') (Leaf CHR ''2''))"
    using d by (simp_all add: d0) (simp_all add: heap12V_def)
  have p1: "printNode heap12V (Cell 0) = Some (Inr ''1'')"
    "printNode heap12V (Cell 1) = Some (Inr ''2'')"
    using d by (subst printNode.simps, simp)+
  have l0: "left (snd heap12V ! 0) = Cell 0" "right (snd heap12V ! 0) = Cell 1"
    "isOperator (snd heap12V ! 0)" "name (snd heap12V ! 0) = CHR ''V''"
    by (simp_all add: heap12V_def)
  have p: "printNode heap12V (Operator 0) = Some (Inr ''12V'')"
    by (subst printNode.simps) (simp add: d0 l0 p1 p1 [unfolded One_nat_def])
  have s: "spec_build ''12V'' = Some (Node CHR ''V'' (Leaf CHR ''2'') (Leaf CHR ''1''))"
    by (simp add: spec_build_def)
  from v g s r p show ?thesis by simp
qed

text \<open>
  Claim C3, amended. For every string of at least two characters that isValidNPE
  accepts and every list of cells (none of them an operator node) that holds a cell for
  every operand of the string, generateTree returns the root of the tree that the usual
  postfix construction gives, where at each operator the earlier subexpression is the
  left child and the later one the right child; and operator<< on that root writes the
  string itself.
\<close>

theorem generateTree_postfix_tree:
  assumes "isValidNPE npe" "2 \<le> length npe"
    and "\<forall>c \<in> set npe. \<not> isOperatorChar c \<longrightarrow> c \<in> name ` set cells"
    and "\<forall>n \<in> set cells. \<not> isOperator n"
  shows "\<exists>h t. generateTree npe cells operators = Some (Inr (h, Operator 0)) \<and>
           postfix_build npe = Some t \<and> represents h (Operator 0) t \<and>
           printNode h (Operator 0) = Some (Inr npe)"
proof -
  from generateTree_result [OF assms(1,2), of cells operators] assms(3) obtain t where
    t: "postfix_build npe = Some t" "shaped t" "postfix t = npe"
    and g: "generateTree npe cells operators =
      Some (Inr ((cells, nodesOf cells t 0 Null), Operator 0))"
    by auto
  from t(3) assms(2) obtain c l r where n: "t = Node c l r" by (cases t) auto
  then have rp: "rootPtr cells t 0 = Operator 0" by simp
  have f: "found cells t" using assms(3) t by (simp add: found_iff)
  have e: "embeds (nodesOf cells t 0 Null) 0 (nodesOf cells t 0 Null)"
    using embeds_self [of "[]" "nodesOf cells t 0 Null"] by simp
  from printNode_layout [OF t(2) f assms(4) e] represents_layout [OF t(2) f assms(4) e]
  have "printNode (cells, nodesOf cells t 0 Null) (Operator 0) = Some (Inr npe)"
    "represents (cells, nodesOf cells t 0 Null) (Operator 0) t"
    unfolding rp t(3) by simp_all
  with g t(1) show ?thesis by blast
qed

theorem generateTree_postfix_tree_witness:
  "isValidNPE ''12V3H'' \<and> (2::nat) \<le> length ''12V3H'' \<and>
   map name cells123 = ''123'' \<and> map isOperator cells123 = [False, False, False] \<and>
   (\<exists>h. generateTree ''12V3H'' cells123 [] = Some (Inr (h, Operator 0)) \<and>
      represents h (Operator 0)
        (Node CHR ''H'' (Node CHR ''V'' (Leaf CHR ''1'') (Leaf CHR ''2'')) (Leaf CHR ''3'')) \<and>
      printNode h (Operator 0) = Some (Inr ''12V3H''))"
proof -
  have v: "isValidNPE ''12V3H''" by (simp add: isValidNPE_def)
  have l: "(2::nat) \<le> length ''12V3H''" by simp
  have c: "\<forall>c \<in> set ''12V3H''. \<not> isOperatorChar c \<longrightarrow> c \<in> name ` set cells123"
    by (simp add: cells123_def SNode_cell_def calcWandH_def Let_def isOperatorChar_def)
  have o: "\<forall>n \<in> set cells123. \<not> isOperator n"
    by (simp add: cells123_def SNode_cell_def calcWandH_def Let_def)
  have b: "postfix_build ''12V3H'' =
      Some (Node CHR ''H'' (Node CHR ''V'' (Leaf CHR ''1'') (Leaf CHR ''2'')) (Leaf CHR ''3''))"
    by (simp add: postfix_build_def)
  have n: "map name cells123 = ''123''" "map isOperator cells123 = [False, False, False]"
    by (simp_all add: cells123_def SNode_cell_def calcWandH_def Let_def)
  from generateTree_postfix_tree [OF v l c o, of "[]"] b v l n show ?thesis
    by auto
qed

section \<open>calcMinArea on the trees of generateTree\<close>

lemma evalOperator_selects:
  assumes "fst (mergeLoops (name this) rsizes lsizes (sizes this)) \<noteq> []"
  shows "\<exists>this' k. evalOperator this rsizes lsizes = Inr this' \<and>
           sizes this' = fst (mergeLoops (name this) rsizes lsizes (sizes this)) \<and>
           selectsFirstMin this' k"
  using evalOperator_min [OF assms] unfolding selectsFirstMin_def by blast

lemma calcMinArea_leaf:
  "deref h p = Some n \<Longrightarrow> \<not> isOperator n \<Longrightarrow> calcMinArea h p = Some (Inr (h, area n))"
  by (subst calcMinArea.simps) simp

lemma calcMinArea_operator:
  assumes "deref h this = Some n" "isOperator n"
    and "calcMinArea (store h this (n\<lparr>sizes := []\<rparr>)) (right n) = Some (Inr (h2, a1))"
    and "deref h2 this = Some n2"
    and "calcMinArea h2 (left n2) = Some (Inr (h3, a2))"
  shows "calcMinArea h this = Some (finishOperator h3 this)"
proof -
  let ?h1 = "store h this (n\<lparr>sizes := []\<rparr>)"
  from assms(3) obtain r where r: "deref ?h1 (right n) = Some r"
    by (cases "deref ?h1 (right n)") (simp_all add: calcMinArea.simps [of ?h1 "right n"])
  from assms(5) obtain l where l: "deref h2 (left n2) = Some l"
    by (cases "deref h2 (left n2)") (simp_all add: calcMinArea.simps [of h2 "left n2"])
  have c1: "(if isOperator r then calcMinArea ?h1 (right n) else Some (Inr (?h1, area r))) =
      Some (Inr (h2, a1))"
    using assms(3) r calcMinArea_leaf [OF r] by (cases "isOperator r") simp_all
  have c2: "(if isOperator l then calcMinArea h2 (left n2) else Some (Inr (h2, area l))) =
      Some (Inr (h3, a2))"
    using assms(5) l calcMinArea_leaf [OF l] by (cases "isOperator l") simp_all
  show ?thesis
    by (subst calcMinArea.simps) (simp add: assms(1,2,4) r l c1 c2 Let_def)
qed


lemma sameShape_refl: "sameShape ops ops"
  by (simp add: sameShape_def)

lemma sameShape_trans: "sameShape a b \<Longrightarrow> sameShape b c \<Longrightarrow> sameShape a c"
  by (simp add: sameShape_def)

lemma sameShape_update:
  assumes "lo < length ops" "isOperator n' = isOperator (ops ! lo)" "name n' = name (ops ! lo)"
    "right n' = right (ops ! lo)" "left n' = left (ops ! lo)"
  shows "sameShape ops (ops[lo := n'])"
  using assms by (simp add: sameShape_def nth_list_update)

lemma laidOut_sameShape:
  "sameShape ops ops' \<Longrightarrow> laidOut cells ops t lo \<Longrightarrow> laidOut cells ops' t lo"
  by (induction t arbitrary: lo) (auto simp: sameShape_def)

lemma mergeLoops_nonempty:
  assumes "rs \<noteq> []" "ls \<noteq> []"
  shows "fst (mergeLoops nm rs ls s0) \<noteq> []"
proof -
  from assms have "length (snd (mergeLoops nm rs ls s0)) \<noteq> 0"
    by (simp add: offered_length)
  then have "snd (mergeLoops nm rs ls s0) \<noteq> []" by simp
  then have "offerAll (snd (mergeLoops nm rs ls s0)) s0 \<noteq> []"
    by (simp add: offerAll_nonempty)
  then show ?thesis by (subst mergeLoops_eq) simp
qed

lemma evalOperator_shape:
  assumes "evalOperator this rs ls = Inr this'"
  shows "isOperator this' = isOperator this \<and> name this' = name this \<and>
         right this' = right this \<and> left this' = left this"
  using assms by (auto simp: evalOperator_def Let_def split: sum.splits prod.splits)

lemma deref_rootPtr_frame:
  assumes "\<forall>i. i < lo \<or> lo + nops t \<le> i \<longrightarrow> ops' ! i = ops ! i" "length ops' = length ops"
    "lo' + nops t' \<le> lo \<or> lo + nops t \<le> lo'"
  shows "deref (cells, ops') (rootPtr cells t' lo') = deref (cells, ops) (rootPtr cells t' lo')"
proof (cases t')
  case (Leaf c)
  with findCell_cases [of cells c 0 Null] show ?thesis by (auto simp: deref_def)
next
  case (Node c l r)
  with assms(3) have "lo' < lo \<or> lo + nops t \<le> lo'" by auto
  with assms(1) have "ops' ! lo' = ops ! lo'" by blast
  with assms(2) Node show ?thesis by (simp add: deref_def)
qed

lemma deref_rootPtr_update:
  "lo' \<noteq> lo \<Longrightarrow>
   deref (cells, ops[lo := x]) (rootPtr cells t lo') = deref (cells, ops) (rootPtr cells t lo')"
proof (cases t)
  case (Leaf c)
  with findCell_cases [of cells c 0 Null] show ?thesis by (auto simp: deref_def)
next
  case (Node c l r)
  assume "lo' \<noteq> lo"
  with Node show ?thesis by (simp add: deref_def)
qed

lemma calcMinArea_tree:
  assumes "shaped t" "found cells t" "\<forall>n \<in> set cells. \<not> isOperator n \<and> sizes n \<noteq> []"
    "laidOut cells ops t lo"
  shows "\<exists>ops' a n. calcMinArea (cells, ops) (rootPtr cells t lo) = Some (Inr ((cells, ops'), a)) \<and>
           sameShape ops ops' \<and> (\<forall>i. i < lo \<or> lo + nops t \<le> i \<longrightarrow> ops' ! i = ops ! i) \<and>
           deref (cells, ops') (rootPtr cells t lo) = Some n \<and> sizes n \<noteq> [] \<and> a = area n \<and>
           (isOperator n \<longrightarrow> evaluated n \<and>
              (\<exists>nr nl. deref (cells, ops') (right n) = Some nr \<and>
                 deref (cells, ops') (left n) = Some nl \<and>
                 sizes n = fst (mergeLoops (name n) (sizes nr) (sizes nl) [])))"
  using assms
proof (induction t arbitrary: ops lo)
  case (Leaf c)
  from deref_found_cell [of cells c ops] Leaf.prems(2) obtain j where
    j: "j < length cells" "findCell cells c 0 Null = Cell j"
      "deref (cells, ops) (Cell j) = Some (cells ! j)" "name (cells ! j) = c"
    by auto
  from j(1) Leaf.prems(3) have n: "\<not> isOperator (cells ! j)" "sizes (cells ! j) \<noteq> []"
    by simp_all
  from calcMinArea_leaf [OF j(3) n(1)] j n sameShape_refl [of ops] show ?case
    by (intro exI [of _ ops] exI [of _ "area (cells ! j)"] exI [of _ "cells ! j"]) simp
next
  case (Node c l r)
  from Node.prems(1,2) have sl: "shaped l" and sr: "shaped r"
    and fl: "found cells l" and fr: "found cells r" by simp_all
  let ?n = "ops ! lo"
  let ?p0 = "Operator lo"
  let ?pr = "rootPtr cells r (Suc lo)"
  let ?pl = "rootPtr cells l (Suc lo + nops r)"
  from Node.prems(4) have lo: "lo < length ops" and op: "isOperator ?n"
    and rn: "right ?n = ?pr" and ln: "left ?n = ?pl"
    and lr: "laidOut cells ops r (Suc lo)" and ll: "laidOut cells ops l (Suc lo + nops r)"
    by simp_all
  have d0: "deref (cells, ops) ?p0 = Some ?n" using lo by (simp add: deref_def)
  let ?n2 = "?n\<lparr>sizes := []\<rparr>"
  let ?ops1 = "ops[lo := ?n2]"
  have h1: "store (cells, ops) ?p0 ?n2 = (cells, ?ops1)" by (simp add: store_def)
  have s1: "sameShape ops ?ops1" using lo by (intro sameShape_update) simp_all
  from Node.IH(2) [OF sr fr Node.prems(3) laidOut_sameShape [OF s1 lr]]
  obtain ops2 a1 nr where
    c1: "calcMinArea (cells, ?ops1) ?pr = Some (Inr ((cells, ops2), a1))"
    and s2: "sameShape ?ops1 ops2"
    and f2: "\<forall>i. i < Suc lo \<or> Suc lo + nops r \<le> i \<longrightarrow> ops2 ! i = ?ops1 ! i"
    and dr: "deref (cells, ops2) ?pr = Some nr" "sizes nr \<noteq> []"
    by blast
  have len2: "length ops2 = length ops" using s2 by (simp add: sameShape_def)
  have n2: "ops2 ! lo = ?n2" using f2 lo by simp
  have d2: "deref (cells, ops2) ?p0 = Some ?n2"
    using lo len2 n2 by (simp add: deref_def)
  have s02: "sameShape ops ops2" using s1 s2 by (rule sameShape_trans)
  from Node.IH(1) [OF sl fl Node.prems(3) laidOut_sameShape [OF s02 ll]]
  obtain ops3 a2 nl where
    c2: "calcMinArea (cells, ops2) ?pl = Some (Inr ((cells, ops3), a2))"
    and s3: "sameShape ops2 ops3"
    and f3: "\<forall>i. i < Suc lo + nops r \<or> Suc lo + nops r + nops l \<le> i \<longrightarrow> ops3 ! i = ops2 ! i"
    and dl: "deref (cells, ops3) ?pl = Some nl" "sizes nl \<noteq> []"
    by blast
  have len3: "length ops3 = length ops" using s3 len2 by (simp add: sameShape_def)
  have n3: "ops3 ! lo = ?n2" using f3 n2 by simp
  have d3: "deref (cells, ops3) ?p0 = Some ?n2"
    using lo len3 n3 by (simp add: deref_def)
  have dr3: "deref (cells, ops3) ?pr = Some nr"
    using deref_rootPtr_frame [OF f3, of "Suc lo" r cells] len3 len2 dr(1) by simp
  have call: "calcMinArea (cells, ops) ?p0 = Some (finishOperator (cells, ops3) ?p0)"
    using calcMinArea_operator [OF d0 op, of "(cells, ops2)" a1 ?n2 "(cells, ops3)" a2]
      c1 c2 d2 h1 rn ln by simp
  have m: "fst (mergeLoops (name ?n2) (sizes nr) (sizes nl) (sizes ?n2)) \<noteq> []"
    using dr(2) dl(2) by (rule mergeLoops_nonempty)
  from evalOperator_selects [OF m] obtain n' k where
    e: "evalOperator ?n2 (sizes nr) (sizes nl) = Inr n'"
    and sz: "sizes n' = fst (mergeLoops (name ?n2) (sizes nr) (sizes nl) (sizes ?n2))"
    and k: "selectsFirstMin n' k"
    by blast
  from sz m have ne: "sizes n' \<noteq> []" by simp
  have "noDomination (sizes n')"
    unfolding sz using mergeLoops_noDomination [of "name ?n" "sizes nr" "sizes nl"] by simp
  with k have ev: "evaluated n'" unfolding evaluated_def by blast
  have fin: "finishOperator (cells, ops3) ?p0 = Inr ((cells, ops3[lo := n']), area n')"
    using d3 dr3 dl(1) e rn ln by (simp add: finishOperator_def store_def)
  from evalOperator_shape [OF e] n3 have
    "isOperator n' = isOperator (ops3 ! lo)" "name n' = name (ops3 ! lo)"
    "right n' = right (ops3 ! lo)" "left n' = left (ops3 ! lo)"
    by simp_all
  with lo len3 have s4: "sameShape ops3 (ops3[lo := n'])"
    by (intro sameShape_update) simp_all
  have shape: "sameShape ops (ops3[lo := n'])"
    using s02 s3 s4 by (blast intro: sameShape_trans)
  have frame: "\<forall>i. i < lo \<or> lo + nops (Node c l r) \<le> i \<longrightarrow> (ops3[lo := n']) ! i = ops ! i"
  proof (intro allI impI)
    fix i assume i: "i < lo \<or> lo + nops (Node c l r) \<le> i"
    then have "i \<noteq> lo" by auto
    then have "(ops3[lo := n']) ! i = ops3 ! i" by simp
    also have "\<dots> = ops2 ! i" using f3 i by auto
    also have "\<dots> = ?ops1 ! i" using f2 i by auto
    also have "\<dots> = ops ! i" using \<open>i \<noteq> lo\<close> by simp
    finally show "(ops3[lo := n']) ! i = ops ! i" .
  qed
  have dn: "deref (cells, ops3[lo := n']) ?p0 = Some n'"
    using lo len3 by (simp add: deref_def)
  from evalOperator_shape [OF e] rn ln have
    sh: "right n' = ?pr" "left n' = ?pl" "name n' = name ?n" by simp_all
  have "deref (cells, ops3[lo := n']) ?pr = Some nr" "deref (cells, ops3[lo := n']) ?pl = Some nl"
    using dr3 dl(1) by (simp_all add: deref_rootPtr_update)
  with sz sh have ch: "\<exists>nr nl. deref (cells, ops3[lo := n']) (right n') = Some nr \<and>
      deref (cells, ops3[lo := n']) (left n') = Some nl \<and>
      sizes n' = fst (mergeLoops (name n') (sizes nr) (sizes nl) [])"
    by auto
  from dn call fin shape frame ne ev ch show ?case
    by (intro exI [of _ "ops3[lo := n']"] exI [of _ "area n'"] exI [of _ n']) simp
qed


lemma laidOut_embeds:
  "embeds ops lo (nodesOf cells t lo par) \<Longrightarrow> laidOut cells ops t lo"
proof (induction t arbitrary: lo par)
  case (Leaf c)
  show ?case by simp
next
  case (Node c l r)
  note d = deref_layout_Node [OF Node.prems]
  from Node.prems have "lo < length ops"
    and "ops ! lo = (SNode_operator c)\<lparr>right := rootPtr cells r (Suc lo),
              left := rootPtr cells l (Suc lo + nops r), parent := par\<rparr>"
    by simp_all
  with Node.IH(1) [OF d(3)] Node.IH(2) [OF d(2)] show ?case
    by (simp add: SNode_operator_def)
qed

lemma cost_returns:
  assumes "isValidNPE npe" "2 \<le> length npe"
    and "\<forall>c \<in> set npe. \<not> isOperatorChar c \<longrightarrow> c \<in> name ` set cells"
    and "\<forall>n \<in> set cells. \<not> isOperator n \<and> sizes n \<noteq> []"
  shows "\<exists>ops' a n. cost npe cells = Some (Inr ((cells, ops'), a)) \<and>
           deref (cells, ops') (Operator 0) = Some n \<and> a = area n \<and> evaluated n"
proof -
  from generateTree_result [OF assms(1,2), of cells "[]"] assms(3) obtain t where
    t: "postfix_build npe = Some t" "shaped t" "postfix t = npe"
    and g: "generateTree npe cells [] =
      Some (Inr ((cells, nodesOf cells t 0 Null), Operator 0))"
    by auto
  from t(3) assms(2) obtain c l r where n: "t = Node c l r" by (cases t) auto
  then have rp: "rootPtr cells t 0 = Operator 0" by simp
  have f: "found cells t" using assms(3) t by (simp add: found_iff)
  have "embeds (nodesOf cells t 0 Null) 0 (nodesOf cells t 0 Null)"
    using embeds_self [of "[]" "nodesOf cells t 0 Null"] by simp
  then have lay: "laidOut cells (nodesOf cells t 0 Null) t 0" by (rule laidOut_embeds)
  from calcMinArea_tree [OF t(2) f assms(4) lay] obtain ops' a m where
    c: "calcMinArea (cells, nodesOf cells t 0 Null) (Operator 0) = Some (Inr ((cells, ops'), a))"
    and s: "sameShape (nodesOf cells t 0 Null) ops'"
    and d: "deref (cells, ops') (Operator 0) = Some m" "a = area m"
      "isOperator m \<longrightarrow> evaluated m \<and>
              (\<exists>nr nl. deref (cells, ops') (right m) = Some nr \<and>
                 deref (cells, ops') (left m) = Some nl \<and>
                 sizes m = fst (mergeLoops (name m) (sizes nr) (sizes nl) []))"
    unfolding rp by blast
  have "isOperator (nodesOf cells t 0 Null ! 0)" using n by (simp add: SNode_operator_def)
  moreover have "0 < length (nodesOf cells t 0 Null)" using n by simp
  ultimately have "isOperator (ops' ! 0)" "0 < length ops'"
    using s by (simp_all add: sameShape_def)
  with d(1) have "isOperator m" by (simp add: deref_def)
  with c d g show ?thesis by (simp add: cost_def)
qed

text \<open>
  Claim C5. calcMinArea on an operator node returns, and sets \<open>selected\<close> to the first
  point of the merged list, in list order, whose product of height and width is least,
  \<open>area\<close> to that product and \<open>aspectRatio\<close> to the quotient of the height and the width
  of the selected point (stated where the width is not zero); the value returned is
  \<open>area\<close>. This holds on every store, for a node whose merged list is non-empty, once
  the calls on the two children have returned; and it holds, with no assumption on any
  call, for the root of every tree that is laid out in the list of operators as
  generateTree leaves it, over cells with non-empty lists.
\<close>

theorem calcMinArea_selects_min_area:
  "(deref h this = Some n \<and> isOperator n \<and>
    calcMinArea (store h this (n\<lparr>sizes := []\<rparr>)) (right n) = Some (Inr (h2, a1)) \<and>
    deref h2 this = Some n2 \<and>
    calcMinArea h2 (left n2) = Some (Inr (h3, a2)) \<and>
    deref h3 this = Some n3 \<and> deref h3 (right n3) = Some nr \<and> deref h3 (left n3) = Some nl \<and>
    fst (mergeLoops (name n3) (sizes nr) (sizes nl) (sizes n3)) \<noteq> [] \<longrightarrow>
    (\<exists>n' k. calcMinArea h this = Some (Inr (store h3 this n', area n')) \<and>
       deref (store h3 this n') this = Some n' \<and>
       sizes n' = fst (mergeLoops (name n3) (sizes nr) (sizes nl) (sizes n3)) \<and>
       selectsFirstMin n' k)) \<and>
   (shaped (Node c lt rt) \<and> found cells (Node c lt rt) \<and>
    (\<forall>x \<in> set cells. \<not> isOperator x \<and> sizes x \<noteq> []) \<and>
    laidOut cells ops (Node c lt rt) lo \<longrightarrow>
    (\<exists>ops' n' k cr cl. calcMinArea (cells, ops) (Operator lo) =
         Some (Inr ((cells, ops'), area n')) \<and>
       deref (cells, ops') (Operator lo) = Some n' \<and>
       deref (cells, ops') (right n') = Some cr \<and> deref (cells, ops') (left n') = Some cl \<and>
       sizes n' = fst (mergeLoops (name n') (sizes cr) (sizes cl) []) \<and>
       selectsFirstMin n' k))"
proof (intro conjI impI)
  assume a: "deref h this = Some n \<and> isOperator n \<and>
    calcMinArea (store h this (n\<lparr>sizes := []\<rparr>)) (right n) = Some (Inr (h2, a1)) \<and>
    deref h2 this = Some n2 \<and>
    calcMinArea h2 (left n2) = Some (Inr (h3, a2)) \<and>
    deref h3 this = Some n3 \<and> deref h3 (right n3) = Some nr \<and> deref h3 (left n3) = Some nl \<and>
    fst (mergeLoops (name n3) (sizes nr) (sizes nl) (sizes n3)) \<noteq> []"
  then have call: "calcMinArea h this = Some (finishOperator h3 this)"
    by (intro calcMinArea_operator [of h this n h2 a1 n2 h3 a2]) simp_all
  from a have m: "fst (mergeLoops (name n3) (sizes nr) (sizes nl) (sizes n3)) \<noteq> []"
    by simp
  from evalOperator_selects [OF m] obtain n' k where
    e: "evalOperator n3 (sizes nr) (sizes nl) = Inr n'"
    and sz: "sizes n' = fst (mergeLoops (name n3) (sizes nr) (sizes nl) (sizes n3))"
    and k: "selectsFirstMin n' k"
    by blast
  from a e have "finishOperator h3 this = Inr (store h3 this n', area n')"
    by (simp add: finishOperator_def)
  moreover from a have "deref (store h3 this n') this = Some n'"
    by (intro deref_store_same [of h3 this n3]) simp
  ultimately show "\<exists>n' k. calcMinArea h this = Some (Inr (store h3 this n', area n')) \<and>
       deref (store h3 this n') this = Some n' \<and>
       sizes n' = fst (mergeLoops (name n3) (sizes nr) (sizes nl) (sizes n3)) \<and>
       selectsFirstMin n' k"
    using call sz k by auto
next
  assume a: "shaped (Node c lt rt) \<and> found cells (Node c lt rt) \<and>
    (\<forall>x \<in> set cells. \<not> isOperator x \<and> sizes x \<noteq> []) \<and>
    laidOut cells ops (Node c lt rt) lo"
  then have s: "shaped (Node c lt rt)" and f: "found cells (Node c lt rt)"
    and cs: "\<forall>x \<in> set cells. \<not> isOperator x \<and> sizes x \<noteq> []"
    and lay: "laidOut cells ops (Node c lt rt) lo"
    by blast+
  from calcMinArea_tree [OF s f cs lay] obtain ops' a' m where
    c: "calcMinArea (cells, ops) (Operator lo) = Some (Inr ((cells, ops'), a'))"
    and sh: "sameShape ops ops'"
    and d: "deref (cells, ops') (Operator lo) = Some m" "a' = area m"
    and ev: "isOperator m \<longrightarrow> evaluated m \<and>
              (\<exists>nr nl. deref (cells, ops') (right m) = Some nr \<and>
                 deref (cells, ops') (left m) = Some nl \<and>
                 sizes m = fst (mergeLoops (name m) (sizes nr) (sizes nl) []))"
    by auto
  from lay have "lo < length ops" "isOperator (ops ! lo)" by simp_all
  with sh have "lo < length ops'" "isOperator (ops' ! lo)"
    by (simp_all add: sameShape_def)
  with d(1) have "isOperator m" by (simp add: deref_def)
  with ev obtain k cr cl where "selectsFirstMin m k"
    "deref (cells, ops') (right m) = Some cr" "deref (cells, ops') (left m) = Some cl"
    "sizes m = fst (mergeLoops (name m) (sizes cr) (sizes cl) [])"
    unfolding evaluated_def by blast
  with c d show "\<exists>ops' n' k cr cl. calcMinArea (cells, ops) (Operator lo) =
         Some (Inr ((cells, ops'), area n')) \<and>
       deref (cells, ops') (Operator lo) = Some n' \<and>
       deref (cells, ops') (right n') = Some cr \<and> deref (cells, ops') (left n') = Some cl \<and>
       sizes n' = fst (mergeLoops (name n') (sizes cr) (sizes cl) []) \<and>
       selectsFirstMin n' k"
    by blast
qed

theorem calcMinArea_selects_min_area_witness:
  "deref exampleHeap (Operator 0) = Some exampleV \<and> isOperator exampleV \<and>
   calcMinArea exampleHeap (right exampleV) = Some (Inr (exampleHeap, 4)) \<and>
   calcMinArea exampleHeap (left exampleV) = Some (Inr (exampleHeap, 4)) \<and>
   deref exampleHeap (right exampleV) = Some exampleB \<and>
   deref exampleHeap (left exampleV) = Some exampleA \<and>
   fst (mergeLoops (name exampleV) (sizes exampleB) (sizes exampleA) (sizes exampleV)) =
     [\<lparr>height = 4, width = 3, rSelected = Some 0, lSelected = Some 0\<rparr>,
      \<lparr>height = 2, width = 6, rSelected = Some 1, lSelected = Some 0\<rparr>] \<and>
   (\<exists>n'. calcMinArea exampleHeap (Operator 0) =
        Some (Inr (store exampleHeap (Operator 0) n', area n')) \<and>
      sizes n' = [\<lparr>height = 4, width = 3, rSelected = Some 0, lSelected = Some 0\<rparr>,
                  \<lparr>height = 2, width = 6, rSelected = Some 1, lSelected = Some 0\<rparr>] \<and>
      selectsFirstMin n' 0 \<and> area n' = 12) \<and>
   (\<exists>ops' n' k. calcMinArea ([exampleA, exampleB], [exampleV]) (Operator 0) =
        Some (Inr (([exampleA, exampleB], ops'), area n')) \<and>
      deref ([exampleA, exampleB], ops') (Operator 0) = Some n' \<and> selectsFirstMin n' k) \<and>
   calcMinArea exampleHeap (Operator 0) =
     Some (Inr (store exampleHeap (Operator 0)
       (exampleV\<lparr>sizes := [\<lparr>height = 4, width = 3, rSelected = Some 0, lSelected = Some 0\<rparr>,
                            \<lparr>height = 2, width = 6, rSelected = Some 1, lSelected = Some 0\<rparr>],
          area := 12,
          selected := Some \<lparr>height = 4, width = 3, rSelected = Some 0, lSelected = Some 0\<rparr>,
          aspectRatio := 4 / 3\<rparr>), 12))"
proof -
  let ?m = "[\<lparr>height = 4, width = 3, rSelected = Some 0, lSelected = Some 0\<rparr>,
             \<lparr>height = 2, width = 6, rSelected = Some 1, lSelected = Some 0\<rparr>]"
  have d: "deref exampleHeap (Operator 0) = Some exampleV"
    "deref exampleHeap (right exampleV) = Some exampleB"
    "deref exampleHeap (left exampleV) = Some exampleA"
    by (simp_all add: deref_def exampleHeap_def exampleV_def)
  have o: "isOperator exampleV" "\<not> isOperator exampleA" "\<not> isOperator exampleB"
    "area exampleA = 4" "area exampleB = 4" "sizes exampleV = []"
    by (simp_all add: exampleV_def exampleA_def exampleB_def)
  have st: "store exampleHeap (Operator 0) (exampleV\<lparr>sizes := []\<rparr>) = exampleHeap"
    by (simp add: store_def exampleHeap_def exampleV_def)
  have cr: "calcMinArea exampleHeap (right exampleV) = Some (Inr (exampleHeap, 4))"
    using calcMinArea_leaf [OF d(2) o(3)] o by simp
  have cl: "calcMinArea exampleHeap (left exampleV) = Some (Inr (exampleHeap, 4))"
    using calcMinArea_leaf [OF d(3) o(2)] o by simp
  have m: "fst (mergeLoops (name exampleV) (sizes exampleB) (sizes exampleA) (sizes exampleV)) = ?m"
    by (simp add: mergeLoops_def nSizeV_def addToDimensions_def Dimensions_eq_def
        exampleA_def exampleB_def exampleV_def)
  have hyp: "deref exampleHeap (Operator 0) = Some exampleV \<and> isOperator exampleV \<and>
    calcMinArea (store exampleHeap (Operator 0) (exampleV\<lparr>sizes := []\<rparr>)) (right exampleV) =
      Some (Inr (exampleHeap, 4)) \<and>
    deref exampleHeap (Operator 0) = Some exampleV \<and>
    calcMinArea exampleHeap (left exampleV) = Some (Inr (exampleHeap, 4)) \<and>
    deref exampleHeap (Operator 0) = Some exampleV \<and>
    deref exampleHeap (right exampleV) = Some exampleB \<and>
    deref exampleHeap (left exampleV) = Some exampleA \<and>
    fst (mergeLoops (name exampleV) (sizes exampleB) (sizes exampleA) (sizes exampleV)) \<noteq> []"
    using d o(1) cr cl m by (simp add: st)
  have tree: "shaped (Node CHR ''V'' (Leaf CHR ''A'') (Leaf CHR ''B'')) \<and>
    found [exampleA, exampleB] (Node CHR ''V'' (Leaf CHR ''A'') (Leaf CHR ''B'')) \<and>
    (\<forall>x \<in> set [exampleA, exampleB]. \<not> isOperator x \<and> sizes x \<noteq> []) \<and>
    laidOut [exampleA, exampleB] [exampleV] (Node CHR ''V'' (Leaf CHR ''A'') (Leaf CHR ''B'')) 0"
    by (simp add: isOperatorChar_def exampleA_def exampleB_def exampleV_def)
  note inst = calcMinArea_selects_min_area [of exampleHeap "Operator 0" exampleV exampleHeap 4
      exampleV exampleHeap 4 exampleV exampleB exampleA "CHR ''V''" "Leaf CHR ''A''"
      "Leaf CHR ''B''" "[exampleA, exampleB]" "[exampleV]" 0]
  from inst hyp obtain n' k where
    a1: "calcMinArea exampleHeap (Operator 0) =
        Some (Inr (store exampleHeap (Operator 0) n', area n'))"
    and a2: "sizes n' = fst (mergeLoops (name exampleV) (sizes exampleB) (sizes exampleA)
        (sizes exampleV))"
    and a3: "selectsFirstMin n' k"
    by blast
  from inst tree have b: "\<exists>ops' n' k. calcMinArea ([exampleA, exampleB], [exampleV]) (Operator 0) =
        Some (Inr (([exampleA, exampleB], ops'), area n')) \<and>
      deref ([exampleA, exampleB], ops') (Operator 0) = Some n' \<and> selectsFirstMin n' k"
    by blast
  have fin: "finishOperator exampleHeap (Operator 0) =
      Inr (store exampleHeap (Operator 0)
        (exampleV\<lparr>sizes := ?m, area := 12, selected := Some (?m ! 0), aspectRatio := 4 / 3\<rparr>), 12)"
    using m d by (simp add: finishOperator_def evalOperator_def selectBest_def)
  have "calcMinArea exampleHeap (Operator 0) = Some (finishOperator exampleHeap (Operator 0))"
    using calcMinArea_operator [OF d(1) o(1), of exampleHeap 4 exampleV exampleHeap 4] cr cl d(1)
    by (simp add: st)
  with fin have c: "calcMinArea exampleHeap (Operator 0) =
      Some (Inr (store exampleHeap (Operator 0)
        (exampleV\<lparr>sizes := ?m, area := 12, selected := Some (?m ! 0), aspectRatio := 4 / 3\<rparr>), 12))"
    by simp
  from a1 c have eq: "store exampleHeap (Operator 0) n' = store exampleHeap (Operator 0)
        (exampleV\<lparr>sizes := ?m, area := 12, selected := Some (?m ! 0), aspectRatio := 4 / 3\<rparr>)"
    and ar: "area n' = 12"
    by simp_all
  from eq have n': "n' = exampleV\<lparr>sizes := ?m, area := 12, selected := Some (?m ! 0),
      aspectRatio := 4 / 3\<rparr>"
    by (simp add: store_def exampleHeap_def)
  from a3 n' have "k = 0"
    by (auto simp: selectsFirstMin_def exampleV_def nth_Cons' split: if_splits)
  with a1 a2 a3 ar m have "\<exists>n'. calcMinArea exampleHeap (Operator 0) =
        Some (Inr (store exampleHeap (Operator 0) n', area n')) \<and>
      sizes n' = ?m \<and> selectsFirstMin n' 0 \<and> area n' = 12"
    by auto
  with d o(1) cr cl m b c show ?thesis by simp
qed

end
